theory Spec2Isabelle
  imports Complex_Main "HOL-Library.AList" "HOL-Library.List_Lexorder" "HOL-Library.Char_ord"
begin

section \<open>SiMon: the simulation monitor's tree builder, status propagation and scheduler\<close>

text \<open>
  A shallow embedding of \<^verbatim>\<open>src/SiMon/simon.py\<close>. The Python objects of class
  \<^verbatim>\<open>SimulationTask\<close> are shared between several containers and mutated through
  whichever alias is at hand, so they live in an explicit store: a reference is a natural
  number, the store maps references to task records, and a fresh object takes the next
  unused reference. Every exception the source can raise on the paths modelled is a value
  of \<open>error\<close>.
\<close>

subsection \<open>Data model\<close>

datatype status =
  STATUS_NEW | STATUS_RUN | STATUS_STOP | STATUS_STALL | STATUS_ERROR | STATUS_DONE

datatype error = AttributeError | KeyError | NoSectionError

type_synonym ref = nat

text \<open>
  Modelled from the spec: the class \<^verbatim>\<open>SimulationTask\<close> of \<^verbatim>\<open>module_common\<close>, which
  \<^verbatim>\<open>simon.py\<close> imports and which is not among the source files. The fields are the
  attributes \<^verbatim>\<open>simon.py\<close> reads and writes (\<open>sid\<close> is the attribute \<^verbatim>\<open>id\<close>, \<open>t_cur\<close>
  the attribute \<^verbatim>\<open>t\<close>); \<open>restarts\<close> is the list of children.
\<close>

record task =
  sid :: int
  name :: string
  fulldir :: string
  status :: status
  t_cur :: real
  t_max_extended :: real
  cid :: int
  niceness :: int
  level :: int
  parent_id :: int
  restarts :: "ref list"

text \<open>
  Modelled from the spec: what the constructor of \<^verbatim>\<open>SimulationTask\<close> leaves in the
  attributes it is not given. The spec fixes \<open>cid = -1\<close> (no candidate), \<open>level = 0\<close>
  (the root's level) and \<open>parent_id = -1\<close> (the root's); it gives no numbers for the
  progress counters and the niceness, which are therefore parameters.
\<close>

record module_common =
  default_t :: real
  default_t_max_extended :: real
  default_niceness :: int

definition SimulationTask ::
  "module_common \<Rightarrow> int \<Rightarrow> string \<Rightarrow> string \<Rightarrow> status \<Rightarrow> task" where
  "SimulationTask mc i nm dir st =
     \<lparr>sid = i, name = nm, fulldir = dir, status = st,
      t_cur = default_t mc, t_max_extended = default_t_max_extended mc,
      cid = - 1, niceness = default_niceness mc, level = 0, parent_id = - 1,
      restarts = []\<rparr>"

text \<open>
  The attributes of the object \<^verbatim>\<open>SiMon\<close> that the tree builder and the scheduler use,
  with the store of task objects. \<open>sim_inst_dict\<close> is a dictionary that the source
  iterates over, so it is an association list in insertion order (keys are inserted in
  ascending order, which is also the order Python 2 iterates small integer keys in);
  \<open>sim_inst_parent_dict\<close> is only looked up and assigned.
\<close>

record simon =
  heap :: "ref \<Rightarrow> task"
  next_ref :: ref
  module_dict :: "string list"
  sim_inst_dict :: "(int \<times> ref) list"
  sim_inst_parent_dict :: "string \<rightharpoonup> ref"
  sim_tree :: ref
  cwd :: string
  inst_id :: int
  max_concurrent_jobs :: int

text \<open>Mutation of one object through a reference.\<close>

definition upd :: "ref \<Rightarrow> (task \<Rightarrow> task) \<Rightarrow> simon \<Rightarrow> simon" where
  "upd r f s = s\<lparr>heap := (heap s)(r := f (heap s r))\<rparr>"

text \<open>Construction of a new object: it takes the next unused reference.\<close>

definition new_object :: "task \<Rightarrow> simon \<Rightarrow> ref \<times> simon" where
  "new_object tk s =
     (next_ref s, s\<lparr>heap := (heap s)(next_ref s := tk), next_ref := Suc (next_ref s)\<rparr>)"

subsection \<open>The directory tree on disk\<close>

text \<open>
  What \<^verbatim>\<open>parse_config_file\<close> and \<^verbatim>\<open>sim_config.get('Simulation', 'Code_name')\<close>
  find in a directory: no file \<^verbatim>\<open>SiMon.conf\<close>, a file without the section, a section
  without the option, or the code name.
\<close>

datatype conf = NoFile | NoSection | NoOption | Code_name string

text \<open>
  One directory as the walk sees it: its name, its configuration, whether it holds a file
  \<^verbatim>\<open>ERROR\<close>, the niceness its code module gives its task, what the status probe reads
  there (status, \<^verbatim>\<open>t\<close>, \<^verbatim>\<open>t_max_extended\<close>), and its subdirectories in the order
  \<^verbatim>\<open>os.listdir\<close> returns them. Plain files are left out: the source skips every name
  that is not a directory.
\<close>

datatype fsdir =
  Dir (dname: string) (dconf: conf) (has_error: bool) (dnice: int)
      (dprobe: "status \<times> real \<times> real") (subdirs: "fsdir list")

definition is_space :: "char \<Rightarrow> bool" where
  "is_space c = (c \<in> set [CHR '' '', CHR 0x09, CHR 0x0A, CHR 0x0B, CHR 0x0C, CHR 0x0D])"

definition strip :: "string \<Rightarrow> string" where
  "strip x = rev (dropWhile is_space (rev (dropWhile is_space x)))"

text \<open>\<^verbatim>\<open>os.path.join\<close> of two components (posixpath).\<close>

definition path_join :: "string \<Rightarrow> string \<Rightarrow> string" where
  "path_join a b =
     (if b \<noteq> [] \<and> hd b = CHR ''/'' then b
      else if a = [] \<or> last a = CHR ''/'' then a @ b
      else a @ ''/'' @ b)"

subsection \<open>The tree builder\<close>

text \<open>
  Lines 147 to 158 of \<^verbatim>\<open>traverse_simulation_dir_tree\<close>: the task object for a
  directory, or \<^verbatim>\<open>None\<close>. A missing section raises \<^verbatim>\<open>NoSectionError\<close>, which the
  \<^verbatim>\<open>except cp.NoOptionError\<close> clause does not catch. The object is an instance of the
  code module's class; the niceness is the module's.
\<close>

definition instantiate ::
  "module_common \<Rightarrow> simon \<Rightarrow> fsdir \<Rightarrow> int \<Rightarrow> string \<Rightarrow> string \<Rightarrow> error + task option" where
  "instantiate mc s d i filename fullpath =
     (case dconf d of
        NoFile \<Rightarrow> Inr None
      | NoSection \<Rightarrow> Inl NoSectionError
      | NoOption \<Rightarrow> Inr None
      | Code_name code_name \<Rightarrow>
          (if code_name \<in> set (module_dict s)
           then Inr (Some ((SimulationTask mc i filename fullpath STATUS_NEW)
                             \<lparr>niceness := dnice d\<rparr>))
           else Inr None))"

text \<open>
  Lines 159 to 169: the object is entered in \<open>sim_inst_dict\<close> and wired to the object
  registered for \<open>base_dir\<close>. With \<^verbatim>\<open>sim_inst = None\<close> the assignment
  \<^verbatim>\<open>sim_inst.id = id\<close> of line 160 raises \<^verbatim>\<open>AttributeError\<close>.
\<close>

definition attach ::
  "string \<Rightarrow> string \<Rightarrow> string \<Rightarrow> int \<Rightarrow> task option \<Rightarrow> simon \<Rightarrow> error + (ref \<times> simon)" where
  "attach base_dir filename fullpath i sim_inst s =
     (case sim_inst of
        None \<Rightarrow> Inl AttributeError
      | Some tk \<Rightarrow>
          (let (r, s1) = new_object tk s;
               s2 = s1\<lparr>sim_inst_dict := AList.update i r (sim_inst_dict s1)\<rparr>;
               s3 = upd r (\<lambda>x. x\<lparr>sid := i, fulldir := fullpath, name := filename\<rparr>) s2
           in case sim_inst_parent_dict s3 base_dir of
                None \<Rightarrow> Inl KeyError
              | Some p \<Rightarrow>
                  (let s4 = upd p (\<lambda>x. x\<lparr>restarts := restarts x @ [r]\<rparr>) s3;
                       s5 = upd r (\<lambda>x. x\<lparr>level := level (heap s4 p) + 1\<rparr>) s4;
                       s6 = s5\<lparr>sim_inst_parent_dict := (sim_inst_parent_dict s5)(fullpath \<mapsto> r)\<rparr>
                   in case sim_inst_parent_dict s6 base_dir of
                        None \<Rightarrow> Inl KeyError
                      | Some p' \<Rightarrow>
                          Inr (r, upd r (\<lambda>x. x\<lparr>parent_id := sid (heap s6 p')\<rparr>) s6))))"

text \<open>
  Modelled from the spec: the method \<^verbatim>\<open>sim_get_status\<close> of \<^verbatim>\<open>SimulationTask\<close>, the
  status probe. It reads the disk and sets the status and the two progress counters of
  the object; what it reads is its first argument.
\<close>

definition sim_get_status :: "status \<times> real \<times> real \<Rightarrow> ref \<Rightarrow> simon \<Rightarrow> simon" where
  "sim_get_status obs r s =
     upd r (\<lambda>x. x\<lparr>status := fst obs, t_cur := fst (snd obs),
                   t_max_extended := snd (snd obs)\<rparr>) s"

text \<open>
  Lines 176 to 182: the parent mirrors the status of the child just probed, and the child
  is nominated as the parent's restart candidate.
\<close>

definition mirror_and_nominate :: "bool \<Rightarrow> ref \<Rightarrow> simon \<Rightarrow> error + simon" where
  "mirror_and_nominate error_file r s =
     (case map_of (sim_inst_dict s) (parent_id (heap s r)) of
        None \<Rightarrow> Inl KeyError
      | Some q \<Rightarrow>
          (let s1 = upd q (\<lambda>x. x\<lparr>status := status (heap s r)\<rparr>) s
           in if t_cur (heap s1 r) > t_cur (heap s1 q) \<and> \<not> error_file
              then (let s2 = upd q (\<lambda>x. x\<lparr>cid := sid (heap s1 r)\<rparr>) s1
                    in Inr (upd q (\<lambda>x. x\<lparr>t_max_extended := t_max_extended (heap s2 r)\<rparr>) s2))
              else Inr s1))"

text \<open>
  The body of the loop of \<^verbatim>\<open>traverse_simulation_dir_tree\<close> for one directory entry.
  The pattern is the \<^verbatim>\<open>'*'\<close> that \<^verbatim>\<open>build_simulation_tree\<close> passes, which matches
  every name.
\<close>

definition traverse_one :: "module_common \<Rightarrow> string \<Rightarrow> fsdir \<Rightarrow> simon \<Rightarrow> error + simon" where
  "traverse_one mc base_dir d s0 =
     (let filename = dname d;
          fullpath = path_join base_dir filename;
          s1 = s0\<lparr>inst_id := inst_id s0 + 1\<rparr>;
          i = inst_id s1
      in case instantiate mc s1 d i filename fullpath of
           Inl e \<Rightarrow> Inl e
         | Inr sim_inst \<Rightarrow>
             (case attach base_dir filename fullpath i sim_inst s1 of
                Inl e \<Rightarrow> Inl e
              | Inr (r, s2) \<Rightarrow>
                  mirror_and_nominate (has_error d) r (sim_get_status (dprobe d) r s2)))"

fun traverse_each :: "module_common \<Rightarrow> string \<Rightarrow> fsdir list \<Rightarrow> simon \<Rightarrow> error + simon" where
  "traverse_each mc base_dir [] s = Inr s"
| "traverse_each mc base_dir (d # ds) s =
     (case traverse_one mc base_dir d s of
        Inl e \<Rightarrow> Inl e
      | Inr s' \<Rightarrow> traverse_each mc base_dir ds s')"

definition traverse_simulation_dir_tree ::
  "module_common \<Rightarrow> string \<Rightarrow> fsdir list \<Rightarrow> simon \<Rightarrow> error + simon" where
  "traverse_simulation_dir_tree mc base_dir files s =
     traverse_each mc base_dir (sort_key dname files) s"

text \<open>
  \<^verbatim>\<open>os.path.walk\<close>: the callback on the directory, then the walk of every
  subdirectory, in listing order.
\<close>

fun walk :: "module_common \<Rightarrow> string \<Rightarrow> fsdir list \<Rightarrow> simon \<Rightarrow> error + simon"
  and walk_each :: "module_common \<Rightarrow> string \<Rightarrow> fsdir list \<Rightarrow> simon \<Rightarrow> error + simon" where
  "walk mc topdir names s =
     (case traverse_simulation_dir_tree mc topdir names s of
        Inl e \<Rightarrow> Inl e
      | Inr s' \<Rightarrow> walk_each mc topdir names s')"
| "walk_each mc topdir [] s = Inr s"
| "walk_each mc topdir (Dir nm cf ef nc pr subs # ds) s =
     (case walk mc (path_join topdir nm) subs s of
        Inl e \<Rightarrow> Inl e
      | Inr s' \<Rightarrow> walk_each mc topdir ds s')"

text \<open>Lines 192 to 199 of \<^verbatim>\<open>build_simulation_tree\<close>: the reset and the walk.\<close>

definition reset_tree :: "module_common \<Rightarrow> simon \<Rightarrow> simon" where
  "reset_tree mc s =
     (let s1 = s\<lparr>sim_inst_dict := []\<rparr>;
          (r, s2) = new_object (SimulationTask mc 0 ''root'' (cwd s1) STATUS_NEW) s1;
          s3 = s2\<lparr>sim_tree := r\<rparr>;
          s4 = s3\<lparr>sim_inst_dict := AList.update 0 (sim_tree s3) (sim_inst_dict s3)\<rparr>;
          s5 = s4\<lparr>sim_inst_parent_dict :=
                    (sim_inst_parent_dict s4)(strip (cwd s4) \<mapsto> sim_tree s4)\<rparr>
      in s5\<lparr>inst_id := 0\<rparr>)"

definition discover :: "module_common \<Rightarrow> fsdir list \<Rightarrow> simon \<Rightarrow> error + simon" where
  "discover mc listing s = (let s' = reset_tree mc s in walk mc (cwd s') listing s')"

subsection \<open>Status propagation\<close>

text \<open>
  Lines 207 to 215: the body of the loop over \<open>sim_inst_dict\<close> for the key \<open>i\<close>, on
  the state and the flag \<^verbatim>\<open>inst_status_modified\<close>.
\<close>

definition sync_one :: "int \<Rightarrow> simon \<times> bool \<Rightarrow> error + (simon \<times> bool)" where
  "sync_one i sm =
     (let s = fst sm in
      if i = 0 then Inr sm
      else case map_of (sim_inst_dict s) i of
             None \<Rightarrow> Inl KeyError
           | Some r \<Rightarrow>
               (if status (heap s r) = STATUS_RUN \<or> status (heap s r) = STATUS_DONE
                then (if parent_id (heap s r) > 0
                      then (case map_of (sim_inst_dict s) (parent_id (heap s r)) of
                              None \<Rightarrow> Inl KeyError
                            | Some q \<Rightarrow>
                                (if status (heap s q) \<noteq> status (heap s r)
                                 then Inr (upd q (\<lambda>x. x\<lparr>status := status (heap s r)\<rparr>) s, True)
                                 else Inr sm))
                      else Inr sm)
                else Inr sm))"

fun sync_each :: "int list \<Rightarrow> simon \<times> bool \<Rightarrow> error + (simon \<times> bool)" where
  "sync_each [] sm = Inr sm"
| "sync_each (i # ks) sm =
     (case sync_one i sm of
        Inl e \<Rightarrow> Inl e
      | Inr sm' \<Rightarrow> sync_each ks sm')"

text \<open>One full pass: lines 206 to 215.\<close>

definition sync_pass :: "simon \<Rightarrow> error + (simon \<times> bool)" where
  "sync_pass s = sync_each (map fst (sim_inst_dict s)) (s, False)"

text \<open>
  The loop of lines 202 to 219, on the locals \<^verbatim>\<open>max_iter\<close> and \<^verbatim>\<open>update_needed\<close>;
  it returns them with the state.
\<close>

function sync_loop :: "nat \<Rightarrow> bool \<Rightarrow> simon \<Rightarrow> error + (simon \<times> nat \<times> bool)" where
  "sync_loop max_iter update_needed s =
     (if update_needed \<and> max_iter < 30
      then (case sync_pass s of
              Inl e \<Rightarrow> Inl e
            | Inr (s', inst_status_modified) \<Rightarrow>
                sync_loop (max_iter + 1) inst_status_modified s')
      else Inr (s, max_iter, update_needed))"
  by pat_completeness auto
termination
  by (relation "measure (\<lambda>(max_iter, update_needed, s). 30 - max_iter)") auto

definition build_simulation_tree :: "module_common \<Rightarrow> fsdir list \<Rightarrow> simon \<Rightarrow> error + simon" where
  "build_simulation_tree mc listing s =
     (case discover mc listing s of
        Inl e \<Rightarrow> Inl e
      | Inr s1 \<Rightarrow>
          (case sync_loop 0 True s1 of
             Inl e \<Rightarrow> Inl e
           | Inr (s2, max_iter, update_needed) \<Rightarrow> Inr s2))"

section \<open>Properties of the status propagation loop\<close>

definition in_RD :: "status \<Rightarrow> bool" where
  "in_RD st = (st = STATUS_RUN \<or> st = STATUS_DONE)"

definition only_status :: "simon \<Rightarrow> simon \<Rightarrow> bool" where
  "only_status s s' = (\<exists>f. s' = s\<lparr>heap := (\<lambda>r. (heap s r)\<lparr>status := f r\<rparr>)\<rparr>)"

lemma only_status_refl: "only_status s s"
  unfolding only_status_def
  by (rule exI [of _ "\<lambda>r. status (heap s r)"]) simp

lemma only_status_trans: "only_status a b \<Longrightarrow> only_status b c \<Longrightarrow> only_status a c"
  unfolding only_status_def by auto

lemma only_status_upd: "only_status s (upd q (\<lambda>x. x\<lparr>status := v\<rparr>) s)"
  unfolding only_status_def upd_def
  by (rule exI [of _ "\<lambda>r. if r = q then v else status (heap s r)"]) (auto intro!: ext simon.equality)

lemma only_status_fields:
  assumes "only_status s s'"
  shows "sim_inst_dict s' = sim_inst_dict s" "sim_tree s' = sim_tree s" "next_ref s' = next_ref s"
    "inst_id s' = inst_id s" "sim_inst_parent_dict s' = sim_inst_parent_dict s"
    "sid (heap s' r) = sid (heap s r)" "parent_id (heap s' r) = parent_id (heap s r)"
    "level (heap s' r) = level (heap s r)" "cid (heap s' r) = cid (heap s r)"
    "niceness (heap s' r) = niceness (heap s r)" "t_cur (heap s' r) = t_cur (heap s r)"
  using assms unfolding only_status_def by auto

definition agrees_at :: "simon \<Rightarrow> int \<Rightarrow> bool" where
  "agrees_at s i =
     (\<forall>r q. i \<noteq> 0 \<and> map_of (sim_inst_dict s) i = Some r \<and> in_RD (status (heap s r)) \<and>
             0 < parent_id (heap s r) \<and> map_of (sim_inst_dict s) (parent_id (heap s r)) = Some q
             \<longrightarrow> status (heap s q) = status (heap s r))"

lemma sync_one_cases:
  assumes "sync_one i (s, b) = Inr (s', b')"
  shows "(s' = s \<and> b' = b \<and> agrees_at s i) \<or>
         (\<exists>r q. i \<noteq> 0 \<and> map_of (sim_inst_dict s) i = Some r \<and> in_RD (status (heap s r)) \<and>
            0 < parent_id (heap s r) \<and> map_of (sim_inst_dict s) (parent_id (heap s r)) = Some q \<and>
            status (heap s q) \<noteq> status (heap s r) \<and>
            s' = upd q (\<lambda>x. x\<lparr>status := status (heap s r)\<rparr>) s \<and> b')"
  using assms unfolding sync_one_def in_RD_def agrees_at_def
  by (auto simp: Let_def split: if_splits option.splits)

lemma sync_one_only_status:
  assumes "sync_one i (s, b) = Inr (s', b')"
  shows "only_status s s'"
  using sync_one_cases [OF assms] by (auto intro: only_status_refl only_status_upd)

lemma sync_each_only_status:
  "sync_each ks (s, b) = Inr (s', b') \<Longrightarrow> only_status s s'"
proof (induction ks arbitrary: s b)
  case Nil
  then show ?case by (simp add: only_status_refl)
next
  case (Cons i ks)
  then obtain s1 b1 where 1: "sync_one i (s, b) = Inr (s1, b1)" and 2: "sync_each ks (s1, b1) = Inr (s', b')"
    by (auto split: sum.splits)
  from sync_one_only_status [OF 1] Cons.IH [OF 2] show ?case by (rule only_status_trans)
qed

definition tree_ok :: "simon \<Rightarrow> bool" where
  "tree_ok s =
     (distinct (map fst (sim_inst_dict s)) \<and> distinct (map snd (sim_inst_dict s)) \<and>
      (\<forall>k r. map_of (sim_inst_dict s) k = Some r \<longrightarrow>
         sid (heap s r) = k \<and> 0 \<le> level (heap s r) \<and>
         (k \<noteq> 0 \<longrightarrow>
            0 \<le> parent_id (heap s r) \<and> parent_id (heap s r) < k \<and>
            (\<exists>q. map_of (sim_inst_dict s) (parent_id (heap s r)) = Some q \<and>
                 level (heap s r) = level (heap s q) + 1))))"

lemma tree_ok_only_status:
  assumes "tree_ok s" "only_status s s'"
  shows "tree_ok s'"
  using assms(1) unfolding tree_ok_def only_status_fields [OF assms(2)] .

lemma map_of_inj:
  assumes "distinct (map snd d)" "map_of d k = Some r" "map_of d k' = Some r"
  shows "k = k'"
proof -
  from assms(2,3) have "(k, r) \<in> set d" "(k', r) \<in> set d" by (auto dest: map_of_SomeD)
  with assms(1) show ?thesis
    by (metis eq_key_imp_eq_value distinct_map inj_on_def snd_conv fst_conv)
qed

definition closed_above :: "simon \<Rightarrow> int \<Rightarrow> int set \<Rightarrow> bool" where
  "closed_above s m P =
     (\<forall>k r q. map_of (sim_inst_dict s) k = Some r \<and> k \<noteq> 0 \<and> 0 < parent_id (heap s r) \<and>
        map_of (sim_inst_dict s) (parent_id (heap s r)) = Some q \<and> in_RD (status (heap s r)) \<and>
        (m < level (heap s r) \<or> (k \<in> P \<and> level (heap s r) = m))
        \<longrightarrow> in_RD (status (heap s q)))"

lemma closed_aboveD:
  assumes "closed_above s m P" "map_of (sim_inst_dict s) k = Some r" "k \<noteq> 0"
    "0 < parent_id (heap s r)" "map_of (sim_inst_dict s) (parent_id (heap s r)) = Some q"
    "in_RD (status (heap s r))" "m < level (heap s r) \<or> (k \<in> P \<and> level (heap s r) = m)"
  shows "in_RD (status (heap s q))"
  using assms unfolding closed_above_def by blast

lemma closed_above_step:
  assumes ok: "tree_ok s" and ca: "closed_above s m P"
    and step: "sync_one i (s, b) = Inr (s', b')"
  shows "closed_above s' m (insert i P)"
proof -
  from sync_one_cases [OF step] show ?thesis
  proof (elim disjE exE conjE)
    assume same: "s' = s" "b' = b"
      and nw: "agrees_at s i"
    show ?thesis
      unfolding closed_above_def same
    proof (intro allI impI, elim conjE)
      fix k r q
      assume h: "map_of (sim_inst_dict s) k = Some r" "k \<noteq> 0" "0 < parent_id (heap s r)"
        "map_of (sim_inst_dict s) (parent_id (heap s r)) = Some q" "in_RD (status (heap s r))"
        "m < level (heap s r) \<or> (k \<in> insert i P \<and> level (heap s r) = m)"
      show "in_RD (status (heap s q))"
      proof (cases "k = i")
        case True
        with nw h have "status (heap s q) = status (heap s r)" unfolding agrees_at_def by blast
        with h(5) show ?thesis by simp
      next
        case False
        with h(6) have "m < level (heap s r) \<or> (k \<in> P \<and> level (heap s r) = m)" by simp
        from closed_aboveD [OF ca h(1-5) this] show ?thesis .
      qed
    qed
  next
    fix ri qi
    assume w: "i \<noteq> 0" "map_of (sim_inst_dict s) i = Some ri" "in_RD (status (heap s ri))"
      "0 < parent_id (heap s ri)" "map_of (sim_inst_dict s) (parent_id (heap s ri)) = Some qi"
      "status (heap s qi) \<noteq> status (heap s ri)"
      "s' = upd qi (\<lambda>x. x\<lparr>status := status (heap s ri)\<rparr>) s"
    have os: "only_status s s'" using w(7) by (simp add: only_status_upd)
    note f = only_status_fields [OF os]
    have st: "\<And>x. status (heap s' x) = (if x = qi then status (heap s ri) else status (heap s x))"
      using w(7) by (simp add: upd_def)
    have dist: "distinct (map snd (sim_inst_dict s))" using ok unfolding tree_ok_def by simp
    have "\<exists>q. map_of (sim_inst_dict s) (parent_id (heap s ri)) = Some q \<and>
            level (heap s ri) = level (heap s q) + 1"
      using ok w(1,2) unfolding tree_ok_def by blast
    with w(5) have lv: "level (heap s ri) = level (heap s qi) + 1" by simp
    have pl: "parent_id (heap s ri) < i" using ok w(1,2) unfolding tree_ok_def by blast
    show ?thesis
      unfolding closed_above_def f
    proof (intro allI impI, elim conjE)
      fix k r q
      assume h: "map_of (sim_inst_dict s) k = Some r" "k \<noteq> 0" "0 < parent_id (heap s r)"
        "map_of (sim_inst_dict s) (parent_id (heap s r)) = Some q" "in_RD (status (heap s' r))"
        "m < level (heap s r) \<or> (k \<in> insert i P \<and> level (heap s r) = m)"
      show "in_RD (status (heap s' q))"
      proof (cases "q = qi")
        case True
        then show ?thesis using st w(3) by simp
      next
        case qn: False
        have ki: "k \<noteq> i" using qn h(1,4) w(2,5) by auto
        with h(6) have h6: "m < level (heap s r) \<or> (k \<in> P \<and> level (heap s r) = m)" by simp
        have "in_RD (status (heap s r))"
        proof (cases "r = qi")
          case False
          then show ?thesis using h(5) st by simp
        next
          case True
          have "m < level (heap s ri)" using h6 lv True by auto
          then have "m < level (heap s ri) \<or> (i \<in> P \<and> level (heap s ri) = m)" by simp
          from closed_aboveD [OF ca w(2,1,4,5,3) this] show ?thesis using True by simp
        qed
        from closed_aboveD [OF ca h(1-4) this h6] show ?thesis using st qn by simp
      qed
    qed
  qed
qed

lemma sync_one_tree_ok:
  "tree_ok s \<Longrightarrow> sync_one i (s, b) = Inr (s', b') \<Longrightarrow> tree_ok s'"
  by (blast intro: tree_ok_only_status sync_one_only_status)

lemma closed_above_each:
  "tree_ok s \<Longrightarrow> closed_above s m P \<Longrightarrow> sync_each ks (s, b) = Inr (s', b')
   \<Longrightarrow> closed_above s' m (P \<union> set ks)"
proof (induction ks arbitrary: s b P)
  case Nil
  then show ?case by simp
next
  case (Cons i ks)
  from Cons.prems(3) obtain s1 b1 where 1: "sync_one i (s, b) = Inr (s1, b1)"
    and 2: "sync_each ks (s1, b1) = Inr (s', b')"
    by (auto split: sum.splits)
  have "closed_above s' m (insert i P \<union> set ks)"
    by (rule Cons.IH [OF sync_one_tree_ok [OF Cons.prems(1) 1]
          closed_above_step [OF Cons.prems(1,2) 1] 2])
  then show ?case by simp
qed

lemma closed_above_lower:
  assumes "closed_above s m P" "fst ` set (sim_inst_dict s) \<subseteq> P"
  shows "closed_above s (m - 1) {}"
  unfolding closed_above_def
proof (intro allI impI, elim conjE)
  fix k r q
  assume h: "map_of (sim_inst_dict s) k = Some r" "k \<noteq> 0" "0 < parent_id (heap s r)"
    "map_of (sim_inst_dict s) (parent_id (heap s r)) = Some q" "in_RD (status (heap s r))"
    "m - 1 < level (heap s r) \<or> (k \<in> {} \<and> level (heap s r) = m - 1)"
  from h(1) have "k \<in> fst ` set (sim_inst_dict s)" by (force dest: map_of_SomeD)
  with assms(2) have "k \<in> P" by blast
  with h(6) have "m < level (heap s r) \<or> (k \<in> P \<and> level (heap s r) = m)" by auto
  from closed_aboveD [OF assms(1) h(1-5) this] show "in_RD (status (heap s q))" .
qed

lemma closed_above_pass:
  assumes "tree_ok s" "closed_above s m {}" "sync_pass s = Inr (s', b')"
  shows "closed_above s' (m - 1) {}"
proof -
  from assms(3) have e: "sync_each (map fst (sim_inst_dict s)) (s, False) = Inr (s', b')"
    by (simp add: sync_pass_def)
  have d: "sim_inst_dict s' = sim_inst_dict s"
    by (rule only_status_fields(1) [OF sync_each_only_status [OF e]])
  from closed_above_each [OF assms(1,2) e]
  have "closed_above s' m (fst ` set (sim_inst_dict s'))" by (simp add: d)
  then show ?thesis by (rule closed_above_lower) simp
qed

text \<open>The closure: a RUNNING or DONE node's parent, when it is not the root, is RUNNING or DONE.\<close>

definition parent_closed :: "simon \<Rightarrow> bool" where
  "parent_closed s =
     (\<forall>k r q. map_of (sim_inst_dict s) k = Some r \<and> k \<noteq> 0 \<and> 0 < parent_id (heap s r) \<and>
        map_of (sim_inst_dict s) (parent_id (heap s r)) = Some q \<and> in_RD (status (heap s r))
        \<longrightarrow> in_RD (status (heap s q)))"

definition parent_agrees :: "simon \<Rightarrow> bool" where
  "parent_agrees s =
     (\<forall>k r q. map_of (sim_inst_dict s) k = Some r \<and> k \<noteq> 0 \<and> 0 < parent_id (heap s r) \<and>
        map_of (sim_inst_dict s) (parent_id (heap s r)) = Some q \<and> in_RD (status (heap s r))
        \<longrightarrow> status (heap s q) = status (heap s r))"

lemma parent_agrees_closed: "parent_agrees s \<Longrightarrow> parent_closed s"
  unfolding parent_agrees_def parent_closed_def by simp

lemma sync_each_unmodified:
  "sync_each ks (s, b) = Inr (s', False) \<Longrightarrow> s' = s \<and> \<not> b \<and> (\<forall>i \<in> set ks. agrees_at s i)"
proof (induction ks arbitrary: s b)
  case Nil
  then show ?case by simp
next
  case (Cons i ks)
  from Cons.prems obtain s1 b1 where 1: "sync_one i (s, b) = Inr (s1, b1)"
    and 2: "sync_each ks (s1, b1) = Inr (s', False)"
    by (auto split: sum.splits)
  from Cons.IH [OF 2] have ih: "s' = s1" "\<not> b1" "\<forall>i \<in> set ks. agrees_at s1 i"
    by simp_all
  from sync_one_cases [OF 1] ih(2) have c: "s1 = s" "b1 = b" "agrees_at s i"
    by blast+
  show ?case using ih c by simp
qed

lemma sync_pass_unmodified:
  assumes "sync_pass s = Inr (s', False)"
  shows "s' = s \<and> parent_agrees s"
proof -
  from assms have e: "sync_each (map fst (sim_inst_dict s)) (s, False) = Inr (s', False)"
    by (simp add: sync_pass_def)
  from sync_each_unmodified [OF e] have 1: "s' = s"
    and 2: "\<forall>i \<in> set (map fst (sim_inst_dict s)). agrees_at s i" by simp_all
  have "parent_agrees s"
    unfolding parent_agrees_def
  proof (intro allI impI, elim conjE)
    fix k r q
    assume h: "map_of (sim_inst_dict s) k = Some r" "k \<noteq> 0" "0 < parent_id (heap s r)"
      "map_of (sim_inst_dict s) (parent_id (heap s r)) = Some q" "in_RD (status (heap s r))"
    from h(1) have "k \<in> set (map fst (sim_inst_dict s))" by (force dest: map_of_SomeD)
    with 2 have "agrees_at s k" by blast
    with h show "status (heap s q) = status (heap s r)" unfolding agrees_at_def by blast
  qed
  with 1 show ?thesis by simp
qed

lemma tree_ok_parent:
  assumes "tree_ok s" "map_of (sim_inst_dict s) k = Some r" "k \<noteq> 0"
  shows "\<exists>q. map_of (sim_inst_dict s) (parent_id (heap s r)) = Some q \<and>
             level (heap s r) = level (heap s q) + 1 \<and> 0 \<le> level (heap s q)"
proof -
  from assms obtain q where q: "map_of (sim_inst_dict s) (parent_id (heap s r)) = Some q"
    "level (heap s r) = level (heap s q) + 1"
    unfolding tree_ok_def by blast
  from assms(1) q(1) have "0 \<le> level (heap s q)" unfolding tree_ok_def by blast
  with q show ?thesis by blast
qed

lemma tree_ok_level2:
  assumes "tree_ok s" "map_of (sim_inst_dict s) k = Some r" "k \<noteq> 0" "0 < parent_id (heap s r)"
  shows "2 \<le> level (heap s r)"
proof -
  from tree_ok_parent [OF assms(1-3)] obtain q where
    q: "map_of (sim_inst_dict s) (parent_id (heap s r)) = Some q"
       "level (heap s r) = level (heap s q) + 1" by blast
  from assms(4) have "parent_id (heap s r) \<noteq> 0" by simp
  from tree_ok_parent [OF assms(1) q(1) this] have "1 \<le> level (heap s q)" by auto
  with q(2) show ?thesis by simp
qed

lemma closed_above_low:
  assumes "tree_ok s" "closed_above s m {}" "m \<le> 1"
  shows "parent_closed s"
  unfolding parent_closed_def
proof (intro allI impI, elim conjE)
  fix k r q
  assume h: "map_of (sim_inst_dict s) k = Some r" "k \<noteq> 0" "0 < parent_id (heap s r)"
    "map_of (sim_inst_dict s) (parent_id (heap s r)) = Some q" "in_RD (status (heap s r))"
  from tree_ok_level2 [OF assms(1) h(1-3)] assms(3)
  have "m < level (heap s r) \<or> (k \<in> {} \<and> level (heap s r) = m)" by simp
  from closed_aboveD [OF assms(2) h(1-5) this] show "in_RD (status (heap s q))" .
qed

lemma closed_above_init:
  assumes "\<forall>k r. map_of (sim_inst_dict s) k = Some r \<longrightarrow> level (heap s r) \<le> L"
  shows "closed_above s L {}"
  unfolding closed_above_def using assms by fastforce

lemma sync_pass_tree_ok:
  assumes "tree_ok s" "sync_pass s = Inr (s', b)"
  shows "tree_ok s'"
proof -
  from assms(2) have "sync_each (map fst (sim_inst_dict s)) (s, False) = Inr (s', b)"
    by (simp add: sync_pass_def)
  from tree_ok_only_status [OF assms(1) sync_each_only_status [OF this]] show ?thesis .
qed

lemma sync_loop_closed:
  "tree_ok s \<Longrightarrow> closed_above s (L - int k) {} \<Longrightarrow> (\<not> u \<longrightarrow> parent_closed s) \<Longrightarrow> L \<le> 31
   \<Longrightarrow> sync_loop k u s = Inr (s', n, u') \<Longrightarrow> parent_closed s'"
proof (induction k u s rule: sync_loop.induct)
  case (1 k u s)
  show ?case
  proof (cases "u \<and> k < 30")
    case False
    with "1.prems"(5) have e: "s' = s" by simp
    show ?thesis
    proof (cases u)
      case False
      with "1.prems"(3) e show ?thesis by simp
    next
      case True
      with \<open>\<not> (u \<and> k < 30)\<close> have "30 \<le> k" by simp
      with "1.prems"(4) have "L - int k \<le> 1" by simp
      from closed_above_low [OF "1.prems"(1,2) this] e show ?thesis by simp
    qed
  next
    case True
    with "1.prems"(5) obtain s1 m where p: "sync_pass s = Inr (s1, m)"
      and l: "sync_loop (k + 1) m s1 = Inr (s', n, u')"
      by (auto split: sum.splits)
    have ok1: "tree_ok s1" by (rule sync_pass_tree_ok [OF "1.prems"(1) p])
    have "closed_above s1 (L - int k - 1) {}"
      by (rule closed_above_pass [OF "1.prems"(1,2) p])
    then have ca1: "closed_above s1 (L - int (k + 1)) {}" by (simp add: algebra_simps)
    have pc: "\<not> m \<longrightarrow> parent_closed s1"
    proof
      assume "\<not> m"
      with p have "sync_pass s = Inr (s1, False)" by simp
      from sync_pass_unmodified [OF this] show "parent_closed s1"
        by (simp add: parent_agrees_closed)
    qed
    from "1.IH" [OF True p refl ok1 ca1 pc "1.prems"(4) l] show ?thesis .
  qed
qed

lemma sync_one_total:
  assumes "tree_ok s" "i \<in> fst ` set (sim_inst_dict s)"
  shows "\<exists>s' b'. sync_one i (s, b) = Inr (s', b')"
proof (cases "i = 0")
  case True
  then show ?thesis by (simp add: sync_one_def)
next
  case False
  from assms(2) obtain r where r: "map_of (sim_inst_dict s) i = Some r"
    by (metis domD dom_map_of_conv_image_fst)
  from tree_ok_parent [OF assms(1) r False] obtain q where
    "map_of (sim_inst_dict s) (parent_id (heap s r)) = Some q" by blast
  with r False show ?thesis by (auto simp: sync_one_def)
qed

lemma sync_each_total:
  "tree_ok s \<Longrightarrow> set ks \<subseteq> fst ` set (sim_inst_dict s)
   \<Longrightarrow> \<exists>s' b'. sync_each ks (s, b) = Inr (s', b')"
proof (induction ks arbitrary: s b)
  case Nil
  then show ?case by simp
next
  case (Cons i ks)
  from Cons.prems have "i \<in> fst ` set (sim_inst_dict s)" by simp
  from sync_one_total [OF Cons.prems(1) this] obtain s1 b1
    where 1: "sync_one i (s, b) = Inr (s1, b1)" by blast
  have ok1: "tree_ok s1" by (rule sync_one_tree_ok [OF Cons.prems(1) 1])
  have "sim_inst_dict s1 = sim_inst_dict s"
    by (rule only_status_fields(1) [OF sync_one_only_status [OF 1]])
  with Cons.prems(2) have "set ks \<subseteq> fst ` set (sim_inst_dict s1)" by simp
  from Cons.IH [OF ok1 this] obtain s' b' where "sync_each ks (s1, b1) = Inr (s', b')" by blast
  with 1 show ?case by simp
qed

lemma sync_pass_total:
  assumes "tree_ok s"
  shows "\<exists>s' b'. sync_pass s = Inr (s', b')"
  unfolding sync_pass_def using sync_each_total [OF assms, of "map fst (sim_inst_dict s)" False]
  by simp

lemma sync_loop_total:
  "tree_ok s \<Longrightarrow> \<exists>s' n u'. sync_loop k u s = Inr (s', n, u')"
proof (induction k u s rule: sync_loop.induct)
  case (1 k u s)
  show ?case
  proof (cases "u \<and> k < 30")
    case False
    then show ?thesis by auto
  next
    case True
    from sync_pass_total [OF "1.prems"] obtain s1 m where p: "sync_pass s = Inr (s1, m)" by blast
    from "1.IH" [OF True p refl sync_pass_tree_ok [OF "1.prems" p]]
    show ?thesis using True p by simp
  qed
qed

lemma sync_loop_bounds:
  "sync_loop k u s = Inr (s', n, u') \<Longrightarrow> k \<le> n \<and> (k \<le> 30 \<longrightarrow> n \<le> 30) \<and> (u' \<longrightarrow> 30 \<le> n)"
proof (induction k u s rule: sync_loop.induct)
  case (1 k u s)
  show ?case
  proof (cases "u \<and> k < 30")
    case False
    with "1.prems" show ?thesis by auto
  next
    case True
    with "1.prems" obtain s1 m where p: "sync_pass s = Inr (s1, m)"
      and l: "sync_loop (k + 1) m s1 = Inr (s', n, u')"
      by (auto split: sum.splits)
    from "1.IH" [OF True p refl l] True show ?thesis by auto
  qed
qed

lemma sync_loop_only_status:
  "sync_loop k u s = Inr (s', n, u') \<Longrightarrow> only_status s s'"
proof (induction k u s rule: sync_loop.induct)
  case (1 k u s)
  show ?case
  proof (cases "u \<and> k < 30")
    case False
    with "1.prems" show ?thesis by (auto simp: only_status_refl)
  next
    case True
    with "1.prems" obtain s1 m where p: "sync_pass s = Inr (s1, m)"
      and l: "sync_loop (k + 1) m s1 = Inr (s', n, u')"
      by (auto split: sum.splits)
    from p have "sync_each (map fst (sim_inst_dict s)) (s, False) = Inr (s1, m)"
      by (simp add: sync_pass_def)
    from only_status_trans [OF sync_each_only_status [OF this] "1.IH" [OF True p refl l]]
    show ?thesis .
  qed
qed

text \<open>What one step may do to the status of any one object.\<close>

definition status_step :: "simon \<Rightarrow> simon \<Rightarrow> bool" where
  "status_step s s' =
     ((\<forall>x. in_RD (status (heap s x)) \<longrightarrow> in_RD (status (heap s' x))) \<and>
      (\<forall>r0. distinct (map snd (sim_inst_dict s)) \<and> map_of (sim_inst_dict s) 0 = Some r0
          \<longrightarrow> status (heap s' r0) = status (heap s r0)))"

lemma status_step_refl: "status_step s s"
  by (simp add: status_step_def)

lemma status_step_trans:
  assumes "status_step a b" "status_step b c" "sim_inst_dict b = sim_inst_dict a"
  shows "status_step a c"
  using assms unfolding status_step_def by simp

lemma sync_one_status_step:
  assumes "sync_one i (s, b) = Inr (s', b')"
  shows "status_step s s'"
proof -
  from sync_one_cases [OF assms] show ?thesis
  proof (elim disjE exE conjE)
    assume "s' = s"
    then show ?thesis by (simp add: status_step_refl)
  next
    fix r q
    assume w: "map_of (sim_inst_dict s) i = Some r" "in_RD (status (heap s r))"
      "0 < parent_id (heap s r)" "map_of (sim_inst_dict s) (parent_id (heap s r)) = Some q"
      "s' = upd q (\<lambda>x. x\<lparr>status := status (heap s r)\<rparr>) s"
    have st: "\<And>x. status (heap s' x) = (if x = q then status (heap s r) else status (heap s x))"
      using w(5) by (simp add: upd_def)
    have "\<And>r0. distinct (map snd (sim_inst_dict s)) \<Longrightarrow> map_of (sim_inst_dict s) 0 = Some r0 \<Longrightarrow> r0 \<noteq> q"
      using map_of_inj w(3,4) by fastforce
    then show ?thesis unfolding status_step_def using st w(2) by auto
  qed
qed

lemma sync_each_status_step:
  "sync_each ks (s, b) = Inr (s', b') \<Longrightarrow> status_step s s'"
proof (induction ks arbitrary: s b)
  case Nil
  then show ?case by (simp add: status_step_refl)
next
  case (Cons i ks)
  then obtain s1 b1 where 1: "sync_one i (s, b) = Inr (s1, b1)" and 2: "sync_each ks (s1, b1) = Inr (s', b')"
    by (auto split: sum.splits)
  show ?case
    by (rule status_step_trans [OF sync_one_status_step [OF 1] Cons.IH [OF 2]
          only_status_fields(1) [OF sync_one_only_status [OF 1]]])
qed

lemma sync_loop_status_step:
  "sync_loop k u s = Inr (s', n, u') \<Longrightarrow> status_step s s'"
proof (induction k u s rule: sync_loop.induct)
  case (1 k u s)
  show ?case
  proof (cases "u \<and> k < 30")
    case False
    with "1.prems" show ?thesis by (auto simp: status_step_refl)
  next
    case True
    with "1.prems" obtain s1 m where p: "sync_pass s = Inr (s1, m)"
      and l: "sync_loop (k + 1) m s1 = Inr (s', n, u')"
      by (auto split: sum.splits)
    from p have e: "sync_each (map fst (sim_inst_dict s)) (s, False) = Inr (s1, m)"
      by (simp add: sync_pass_def)
    show ?thesis
      by (rule status_step_trans [OF sync_each_status_step [OF e] "1.IH" [OF True p refl l]
            only_status_fields(1) [OF sync_each_only_status [OF e]]])
  qed
qed

section \<open>What the tree builder establishes\<close>

lemma update_fresh_append:
  "k \<notin> fst ` set al \<Longrightarrow> AList.update k v al = al @ [(k, v)]"
  by (induction al) auto

lemma traverse_one_facts:
  assumes t: "traverse_one mc base d s = Inr s'"
    and pd: "sim_inst_parent_dict s base = Some p"
    and ne: "path_join base (dname d) \<noteq> base"
    and pk: "map_of (sim_inst_dict s) (sid (heap s p)) = Some p"
    and fk: "inst_id s + 1 \<notin> fst ` set (sim_inst_dict s)"
    and fr: "p \<noteq> next_ref s"
  shows "sim_inst_dict s' = sim_inst_dict s @ [(inst_id s + 1, next_ref s)]"
    and "inst_id s' = inst_id s + 1"
    and "next_ref s' = Suc (next_ref s)"
    and "sim_tree s' = sim_tree s"
    and "sim_inst_parent_dict s' = (sim_inst_parent_dict s)(path_join base (dname d) \<mapsto> next_ref s)"
    and "sid (heap s' x) = (if x = next_ref s then inst_id s + 1 else sid (heap s x))"
    and "parent_id (heap s' x) = (if x = next_ref s then sid (heap s p) else parent_id (heap s x))"
    and "level (heap s' x) = (if x = next_ref s then level (heap s p) + 1 else level (heap s x))"
    and "status (heap s' x) = (if x = next_ref s \<or> x = p then fst (dprobe d) else status (heap s x))"
    and "cid (heap s' x) =
          (if x = p then (if t_cur (heap s p) < fst (snd (dprobe d)) \<and> \<not> has_error d
                          then inst_id s + 1 else cid (heap s p))
           else if x = next_ref s then - 1 else cid (heap s x))"
    and "t_cur (heap s' x) = (if x = next_ref s then fst (snd (dprobe d)) else t_cur (heap s x))"
    and "niceness (heap s' x) = (if x = next_ref s then dnice d else niceness (heap s x))"
    and "t_max_extended (heap s' x) =
          (if x = p then (if t_cur (heap s p) < fst (snd (dprobe d)) \<and> \<not> has_error d
                          then snd (snd (dprobe d)) else t_max_extended (heap s p))
           else if x = next_ref s then snd (snd (dprobe d)) else t_max_extended (heap s x))"
proof -
  have k: "sid (heap s p) \<noteq> inst_id s + 1"
    using pk fk by (auto dest!: map_of_SomeD simp: image_iff)
  show "sim_inst_dict s' = sim_inst_dict s @ [(inst_id s + 1, next_ref s)]"
    and "inst_id s' = inst_id s + 1"
    and "next_ref s' = Suc (next_ref s)"
    and "sim_tree s' = sim_tree s"
    and "sim_inst_parent_dict s' = (sim_inst_parent_dict s)(path_join base (dname d) \<mapsto> next_ref s)"
    and "sid (heap s' x) = (if x = next_ref s then inst_id s + 1 else sid (heap s x))"
    and "parent_id (heap s' x) = (if x = next_ref s then sid (heap s p) else parent_id (heap s x))"
    and "level (heap s' x) = (if x = next_ref s then level (heap s p) + 1 else level (heap s x))"
    and "status (heap s' x) = (if x = next_ref s \<or> x = p then fst (dprobe d) else status (heap s x))"
    and "cid (heap s' x) =
          (if x = p then (if t_cur (heap s p) < fst (snd (dprobe d)) \<and> \<not> has_error d
                          then inst_id s + 1 else cid (heap s p))
           else if x = next_ref s then - 1 else cid (heap s x))"
    and "t_cur (heap s' x) = (if x = next_ref s then fst (snd (dprobe d)) else t_cur (heap s x))"
    and "niceness (heap s' x) = (if x = next_ref s then dnice d else niceness (heap s x))"
    and "t_max_extended (heap s' x) =
          (if x = p then (if t_cur (heap s p) < fst (snd (dprobe d)) \<and> \<not> has_error d
                          then snd (snd (dprobe d)) else t_max_extended (heap s p))
           else if x = next_ref s then snd (snd (dprobe d)) else t_max_extended (heap s x))"
    using t pd ne pk fk fr k
    unfolding traverse_one_def instantiate_def attach_def sim_get_status_def mirror_and_nominate_def
      new_object_def upd_def SimulationTask_def
    by (auto simp: Let_def update_conv' update_fresh_append split: conf.splits if_splits option.splits)
qed


definition cid_ok :: "simon \<Rightarrow> bool" where
  "cid_ok s =
     (\<forall>k r. map_of (sim_inst_dict s) k = Some r \<longrightarrow>
        cid (heap s r) = - 1 \<or>
        (k < cid (heap s r) \<and>
         (\<exists>c. map_of (sim_inst_dict s) (cid (heap s r)) = Some c \<and> parent_id (heap s c) = k)))"

definition built :: "simon \<Rightarrow> bool" where
  "built s =
     (tree_ok s \<and> cid_ok s \<and>
      map fst (sim_inst_dict s) = [0..inst_id s] \<and>
      (\<forall>r \<in> snd ` set (sim_inst_dict s). r < next_ref s) \<and>
      map_of (sim_inst_dict s) 0 = Some (sim_tree s) \<and>
      level (heap s (sim_tree s)) = 0)"

lemma map_of_snoc_fresh:
  "k \<notin> fst ` set al \<Longrightarrow> map_of (al @ [(k, v)]) = (map_of al)(k \<mapsto> v)"
  by (induction al) auto

lemma built_keys:
  assumes "built s" "map_of (sim_inst_dict s) k = Some r"
  shows "0 \<le> k" "k \<le> inst_id s" "r < next_ref s" "sid (heap s r) = k"
proof -
  from assms(2) have m: "(k, r) \<in> set (sim_inst_dict s)" by (rule map_of_SomeD)
  then have "k \<in> set (map fst (sim_inst_dict s))" by force
  with assms(1) have "k \<in> set [0..inst_id s]" unfolding built_def by simp
  then show "0 \<le> k" "k \<le> inst_id s" by simp_all
  from m have "r \<in> snd ` set (sim_inst_dict s)" by force
  with assms(1) show "r < next_ref s" unfolding built_def by blast
  from assms show "sid (heap s r) = k" unfolding built_def tree_ok_def by blast
qed

lemma built_fresh_key:
  assumes "built s"
  shows "inst_id s + 1 \<notin> fst ` set (sim_inst_dict s)"
proof -
  have "fst ` set (sim_inst_dict s) = set (map fst (sim_inst_dict s))" by simp
  also have "\<dots> = set [0..inst_id s]" using assms unfolding built_def by simp
  finally show ?thesis by simp
qed

lemma built_traverse_one:
  assumes b: "built s"
    and pd: "sim_inst_parent_dict s base = Some p"
    and pc: "map_of (sim_inst_dict s) kp = Some p"
    and ne: "path_join base (dname d) \<noteq> base"
    and t: "traverse_one mc base d s = Inr s'"
  shows "built s'"
proof -
  let ?n = "inst_id s" and ?r = "next_ref s" and ?d = "sim_inst_dict s"
  note kp = built_keys [OF b pc]
  have pk: "map_of ?d (sid (heap s p)) = Some p" using pc kp(4) by simp
  have fk: "?n + 1 \<notin> fst ` set ?d" by (rule built_fresh_key [OF b])
  have fr: "p \<noteq> ?r" using kp(3) by simp
  note f = traverse_one_facts [OF t pd ne pk fk fr]
  have m: "map_of (sim_inst_dict s') = (map_of ?d)(?n + 1 \<mapsto> ?r)"
    unfolding f(1) by (rule map_of_snoc_fresh [OF fk])
  have old: "\<And>x y. map_of ?d x = Some y \<Longrightarrow> x \<noteq> ?n + 1 \<and> y \<noteq> ?r \<and> 0 \<le> x \<and> x \<le> ?n"
    using built_keys [OF b] by fastforce
  have n0: "0 \<le> ?n"
    using b built_keys(2) [OF b] unfolding built_def by fastforce
  have tok: "tree_ok s" and cok: "cid_ok s" using b unfolding built_def by simp_all
  have keys': "map fst (sim_inst_dict s') = [0..?n + 1]"
  proof -
    have "map fst (sim_inst_dict s') = [0..?n] @ [?n + 1]"
      using b unfolding f(1) built_def by simp
    also have "\<dots> = [0..?n + 1]" using n0 by (simp add: upto_rec2)
    finally show ?thesis .
  qed
  have refs': "\<forall>r \<in> snd ` set (sim_inst_dict s'). r < next_ref s'"
    using b unfolding f(1,3) built_def by (auto simp: less_Suc_eq)
  have dk: "distinct (map fst (sim_inst_dict s'))" unfolding keys' by simp
  have ds: "distinct (map snd (sim_inst_dict s'))"
  proof -
    have "?r \<notin> snd ` set ?d" using b unfolding built_def by blast
    moreover have "distinct (map snd ?d)" using tok unfolding tree_ok_def by simp
    ultimately show ?thesis unfolding f(1) by simp
  qed
  have tree: "tree_ok s'"
    unfolding tree_ok_def
  proof (intro conjI allI impI)
    show "distinct (map fst (sim_inst_dict s'))" by (rule dk)
    show "distinct (map snd (sim_inst_dict s'))" by (rule ds)
  next
    fix k r assume a: "map_of (sim_inst_dict s') k = Some r"
    show "sid (heap s' r) = k"
    proof (cases "k = ?n + 1")
      case True
      with a m show ?thesis by (simp add: f(6))
    next
      case False
      with a m have o: "map_of ?d k = Some r" by simp
      with old have "r \<noteq> ?r" by blast
      with built_keys(4) [OF b o] show ?thesis by (simp add: f(6))
    qed
    show "0 \<le> level (heap s' r)"
    proof (cases "k = ?n + 1")
      case True
      with a m have "r = ?r" by simp
      moreover have "0 \<le> level (heap s p)" using tok pc unfolding tree_ok_def by blast
      ultimately show ?thesis by (simp add: f(8))
    next
      case False
      with a m have o: "map_of ?d k = Some r" by simp
      with old have "r \<noteq> ?r" by blast
      moreover have "0 \<le> level (heap s r)" using tok o unfolding tree_ok_def by blast
      ultimately show ?thesis by (simp add: f(8))
    qed
  next
    fix k r assume a: "map_of (sim_inst_dict s') k = Some r" and k0: "k \<noteq> 0"
    have "0 \<le> parent_id (heap s' r) \<and> parent_id (heap s' r) < k \<and>
          (\<exists>q. map_of (sim_inst_dict s') (parent_id (heap s' r)) = Some q \<and>
               level (heap s' r) = level (heap s' q) + 1)"
    proof (cases "k = ?n + 1")
      case True
      with a m have r: "r = ?r" by simp
      have "map_of (sim_inst_dict s') kp = Some p" using m pc old by fastforce
      moreover have "level (heap s' p) = level (heap s p)" using fr by (simp add: f(8))
      ultimately show ?thesis using r True kp by (simp add: f(7,8))
    next
      case False
      with a m have o: "map_of ?d k = Some r" by simp
      with old have rn: "r \<noteq> ?r" by blast
      from tree_ok_parent [OF tok o k0] obtain q where
        q: "map_of ?d (parent_id (heap s r)) = Some q" "level (heap s r) = level (heap s q) + 1"
        by blast
      from old [OF q(1)] have "q \<noteq> ?r" "parent_id (heap s r) \<noteq> ?n + 1" by simp_all
      with q m have "map_of (sim_inst_dict s') (parent_id (heap s r)) = Some q \<and>
          level (heap s' r) = level (heap s' q) + 1" using rn by (simp add: f(8))
      moreover have "0 \<le> parent_id (heap s r) \<and> parent_id (heap s r) < k"
        using tok o k0 unfolding tree_ok_def by blast
      ultimately show ?thesis using rn by (auto simp: f(7))
    qed
    then show "0 \<le> parent_id (heap s' r)" "parent_id (heap s' r) < k"
      "\<exists>q. map_of (sim_inst_dict s') (parent_id (heap s' r)) = Some q \<and>
               level (heap s' r) = level (heap s' q) + 1" by blast+
  qed
  have cids: "cid_ok s'"
    unfolding cid_ok_def
  proof (intro allI impI)
    fix k r assume a: "map_of (sim_inst_dict s') k = Some r"
    show "cid (heap s' r) = - 1 \<or>
        (k < cid (heap s' r) \<and>
         (\<exists>c. map_of (sim_inst_dict s') (cid (heap s' r)) = Some c \<and> parent_id (heap s' c) = k))"
    proof (cases "k = ?n + 1")
      case True
      with a m have "r = ?r" by simp
      with fr show ?thesis by (simp add: f(10))
    next
      case False
      with a m have o: "map_of ?d k = Some r" by simp
      with old have rn: "r \<noteq> ?r" by blast
      show ?thesis
      proof (cases "cid (heap s' r) = cid (heap s r)")
        case same: True
        show ?thesis
        proof (cases "cid (heap s r) = - 1")
          case True
          with same show ?thesis by simp
        next
          case False
          with cok o obtain c where c: "k < cid (heap s r)"
            "map_of ?d (cid (heap s r)) = Some c" "parent_id (heap s c) = k"
            unfolding cid_ok_def by blast
          from old [OF c(2)] have "c \<noteq> ?r" "cid (heap s r) \<noteq> ?n + 1" by simp_all
          with c m same show ?thesis by (simp add: f(7))
        qed
      next
        case False
        then have rp: "r = p" and cn: "cid (heap s' r) = ?n + 1"
          using rn by (auto simp: f(10) split: if_splits)
        have "distinct (map snd ?d)" using tok unfolding tree_ok_def by simp
        from map_of_inj [OF this o [unfolded rp] pc] have "k = kp" .
        with kp cn m show ?thesis by (simp add: f(7))
      qed
    qed
  qed
  have root: "map_of (sim_inst_dict s') 0 = Some (sim_tree s')"
    using b n0 unfolding m f(4) built_def by simp
  have "sim_tree s < ?r" using built_keys(3) [OF b] b unfolding built_def by blast
  then have rl: "level (heap s' (sim_tree s')) = 0"
    using b unfolding f(4) built_def by (simp add: f(8))
  from tree cids keys' refs' root rl show ?thesis
    unfolding built_def f(2) by simp
qed

definition name_ok :: "string \<Rightarrow> bool" where
  "name_ok nm = (nm \<noteq> [] \<and> CHR ''/'' \<notin> set nm)"

fun dir_ok :: "fsdir \<Rightarrow> bool" where
  "dir_ok (Dir nm cf ef nc pr subs) =
     (name_ok nm \<and> distinct (map dname subs) \<and> (\<forall>d \<in> set subs. dir_ok d))"

definition fs_ok :: "fsdir list \<Rightarrow> bool" where
  "fs_ok ds = (distinct (map dname ds) \<and> (\<forall>d \<in> set ds. dir_ok d))"

definition pre :: "string \<Rightarrow> string" where
  "pre a = (if a = [] \<or> last a = CHR ''/'' then a else a @ ''/'')"

definition below :: "string \<Rightarrow> string set" where
  "below a = {pre a @ x | x. x \<noteq> []}"

lemma path_join_pre: "name_ok nm \<Longrightarrow> path_join a nm = pre a @ nm"
  unfolding name_ok_def path_join_def pre_def by (cases nm) auto

lemma join_below: "name_ok nm \<Longrightarrow> path_join a nm \<in> below a"
  unfolding below_def by (auto simp: path_join_pre name_ok_def)

lemma pre_join:
  assumes "name_ok nm"
  shows "pre (path_join a nm) = pre a @ nm @ ''/''"
proof -
  from assms have "nm \<noteq> []" "last nm \<noteq> CHR ''/''"
    unfolding name_ok_def using last_in_set by fastforce+
  then have "pre (pre a @ nm) = (pre a @ nm) @ ''/''"
    unfolding pre_def [of "pre a @ nm"] by simp
  then show ?thesis by (simp add: path_join_pre [OF assms])
qed

lemma below_join: "name_ok nm \<Longrightarrow> below (path_join a nm) \<subseteq> below a"
  unfolding below_def by (auto simp: pre_join)

lemma self_not_below: "a \<notin> below a"
proof
  assume "a \<in> below a"
  then obtain x where "a = pre a @ x" "x \<noteq> []" unfolding below_def by blast
  then have "length a = length (pre a) + length x" by (metis length_append)
  moreover have "0 < length x" using \<open>x \<noteq> []\<close> by simp
  moreover have "length a \<le> length (pre a)" unfolding pre_def by simp
  ultimately show False by simp
qed

lemma sibling_not_below:
  assumes "name_ok n1" "name_ok n2"
  shows "path_join a n2 \<notin> below (path_join a n1)"
proof
  assume "path_join a n2 \<in> below (path_join a n1)"
  then obtain x where "pre a @ n2 = pre a @ n1 @ ''/'' @ x"
    unfolding below_def by (auto simp: pre_join [OF assms(1)] path_join_pre [OF assms(2)])
  then have "n2 = n1 @ ''/'' @ x" by simp
  then have "CHR ''/'' \<in> set n2" by simp
  with assms(2) show False by (simp add: name_ok_def)
qed

lemma join_inj: "name_ok n1 \<Longrightarrow> name_ok n2 \<Longrightarrow> path_join a n1 = path_join a n2 \<Longrightarrow> n1 = n2"
  by (simp add: path_join_pre)

lemma join_neq: "name_ok nm \<Longrightarrow> path_join a nm \<noteq> a"
  using join_below self_not_below by metis

definition cur :: "simon \<Rightarrow> string \<Rightarrow> bool" where
  "cur s path = (\<exists>p k. sim_inst_parent_dict s path = Some p \<and> map_of (sim_inst_dict s) k = Some p)"

definition grows :: "simon \<Rightarrow> simon \<Rightarrow> bool" where
  "grows s s' = (\<forall>k r. map_of (sim_inst_dict s) k = Some r \<longrightarrow> map_of (sim_inst_dict s') k = Some r)"

definition frame :: "string set \<Rightarrow> simon \<Rightarrow> simon \<Rightarrow> bool" where
  "frame W s s' = (\<forall>k. k \<notin> W \<longrightarrow> sim_inst_parent_dict s' k = sim_inst_parent_dict s k)"

lemma grows_refl: "grows s s" by (simp add: grows_def)
lemma grows_trans: "grows a b \<Longrightarrow> grows b c \<Longrightarrow> grows a c" by (simp add: grows_def)
lemma frame_refl: "frame W s s" by (simp add: frame_def)
lemma frame_trans: "frame V a b \<Longrightarrow> frame W b c \<Longrightarrow> V \<subseteq> U \<Longrightarrow> W \<subseteq> U \<Longrightarrow> frame U a c"
  unfolding frame_def by (metis subsetD)

lemma cur_kept: "cur s k \<Longrightarrow> grows s s' \<Longrightarrow> frame W s s' \<Longrightarrow> k \<notin> W \<Longrightarrow> cur s' k"
  unfolding cur_def grows_def frame_def by metis

lemma traverse_one_step:
  assumes b: "built s" and c: "cur s base" and n: "name_ok (dname d)"
    and t: "traverse_one mc base d s = Inr s'"
  shows "built s' \<and> grows s s' \<and> frame {path_join base (dname d)} s s' \<and>
         cur s' (path_join base (dname d))"
proof -
  from c obtain p kp where pd: "sim_inst_parent_dict s base = Some p"
    and pc: "map_of (sim_inst_dict s) kp = Some p" unfolding cur_def by blast
  note ne = join_neq [OF n, of base]
  have b': "built s'" by (rule built_traverse_one [OF b pd pc ne t])
  note kp = built_keys [OF b pc]
  have pk: "map_of (sim_inst_dict s) (sid (heap s p)) = Some p" using pc kp(4) by simp
  have fk: "inst_id s + 1 \<notin> fst ` set (sim_inst_dict s)" by (rule built_fresh_key [OF b])
  have fr: "p \<noteq> next_ref s" using kp(3) by simp
  note f = traverse_one_facts [OF t pd ne pk fk fr]
  have m: "map_of (sim_inst_dict s') = (map_of (sim_inst_dict s))(inst_id s + 1 \<mapsto> next_ref s)"
    unfolding f(1) by (rule map_of_snoc_fresh [OF fk])
  have g: "grows s s'"
    unfolding grows_def m using fk by (auto dest!: map_of_SomeD simp: image_iff)
  have fm: "frame {path_join base (dname d)} s s'"
    unfolding frame_def f(5) by simp
  have "cur s' (path_join base (dname d))"
    unfolding cur_def f(5) m by auto
  with b' g fm show ?thesis by simp
qed

lemma traverse_each_inv:
  "built s \<Longrightarrow> cur s base \<Longrightarrow> \<forall>d \<in> set ds. name_ok (dname d) \<Longrightarrow> distinct (map dname ds)
   \<Longrightarrow> traverse_each mc base ds s = Inr s'
   \<Longrightarrow> built s' \<and> grows s s' \<and> frame (path_join base ` dname ` set ds) s s' \<and>
       (\<forall>d \<in> set ds. cur s' (path_join base (dname d)))"
proof (induction ds arbitrary: s)
  case Nil
  then show ?case by (simp add: grows_refl frame_refl)
next
  case (Cons d ds)
  from Cons.prems(5) obtain s1 where 1: "traverse_one mc base d s = Inr s1"
    and 2: "traverse_each mc base ds s1 = Inr s'"
    by (auto split: sum.splits)
  from Cons.prems(3) have nd: "name_ok (dname d)" and nds: "\<forall>d \<in> set ds. name_ok (dname d)"
    by simp_all
  from Cons.prems(4) have dd: "distinct (map dname ds)" and dn: "dname d \<notin> dname ` set ds"
    by simp_all
  from traverse_one_step [OF Cons.prems(1,2) nd 1]
  have s1: "built s1" "grows s s1" "frame {path_join base (dname d)} s s1"
    "cur s1 (path_join base (dname d))" by simp_all
  have "base \<notin> {path_join base (dname d)}" using join_neq [OF nd, of base] by simp
  from cur_kept [OF Cons.prems(2) s1(2,3) this] have cb: "cur s1 base" .
  from Cons.IH [OF s1(1) cb nds dd 2]
  have ih: "built s'" "grows s1 s'" "frame (path_join base ` dname ` set ds) s1 s'"
    "\<forall>d \<in> set ds. cur s' (path_join base (dname d))" by simp_all
  have "path_join base (dname d) \<notin> path_join base ` dname ` set ds"
  proof
    assume "path_join base (dname d) \<in> path_join base ` dname ` set ds"
    then obtain e where e: "e \<in> set ds" "path_join base (dname d) = path_join base (dname e)"
      by auto
    from join_inj [OF nd _ e(2)] nds e(1) have "dname d = dname e" by blast
    with dn e(1) show False by simp
  qed
  from cur_kept [OF s1(4) ih(2,3) this] have cd: "cur s' (path_join base (dname d))" .
  have fr: "frame (path_join base ` dname ` set (d # ds)) s s'"
    by (rule frame_trans [OF s1(3) ih(3)]) auto
  from ih(1) grows_trans [OF s1(2) ih(2)] fr cd ih(4) show ?case by simp
qed

lemma distinct_map_insort_key:
  "distinct (map f (insort_key g x xs)) = (f x \<notin> f ` set xs \<and> distinct (map f xs))"
  by (induction xs) (auto simp: set_insort_key)

lemma distinct_map_sort_key: "distinct (map f (sort_key g xs)) = distinct (map f xs)"
  by (induction xs) (auto simp: distinct_map_insort_key)

lemma traverse_dir_inv:
  assumes "built s" "cur s base" "\<forall>d \<in> set ds. name_ok (dname d)" "distinct (map dname ds)"
    "traverse_simulation_dir_tree mc base ds s = Inr s'"
  shows "built s' \<and> grows s s' \<and> frame (below base) s s' \<and>
       (\<forall>d \<in> set ds. cur s' (path_join base (dname d)))"
proof -
  let ?ds = "sort_key dname ds"
  have a: "\<forall>d \<in> set ?ds. name_ok (dname d)" using assms(3) by simp
  have b: "distinct (map dname ?ds)" using assms(4) by (simp add: distinct_map_sort_key)
  from assms(5) have c: "traverse_each mc base ?ds s = Inr s'"
    by (simp add: traverse_simulation_dir_tree_def)
  from traverse_each_inv [OF assms(1,2) a b c]
  have r: "built s'" "grows s s'" "frame (path_join base ` dname ` set ds) s s'"
    "\<forall>d \<in> set ds. cur s' (path_join base (dname d))" by simp_all
  have "path_join base ` dname ` set ds \<subseteq> below base"
    using assms(3) join_below by auto
  with r(3) have "frame (below base) s s'" unfolding frame_def by blast
  with r show ?thesis by simp
qed

lemma walk_inv:
  "built s \<Longrightarrow> cur s topdir \<Longrightarrow> fs_ok names \<Longrightarrow> walk mc topdir names s = Inr s'
     \<Longrightarrow> built s' \<and> grows s s' \<and> frame (below topdir) s s'"
  and walk_each_inv:
  "built s \<Longrightarrow> \<forall>d \<in> set ds. cur s (path_join topdir (dname d)) \<Longrightarrow> \<forall>d \<in> set ds. dir_ok d
     \<Longrightarrow> walk_each mc topdir ds s = Inr s'
     \<Longrightarrow> built s' \<and> grows s s' \<and> frame (below topdir) s s'"
proof (induction mc topdir names s and mc topdir ds s arbitrary: s' and s' rule: walk_walk_each.induct)
  case (1 mc topdir names s)
  from "1.prems"(4) obtain s1 where t: "traverse_simulation_dir_tree mc topdir names s = Inr s1"
    and w: "walk_each mc topdir names s1 = Inr s'"
    by (auto split: sum.splits)
  from "1.prems"(3) have ok: "\<forall>d \<in> set names. dir_ok d" and dn: "distinct (map dname names)"
    by (simp_all add: fs_ok_def)
  have nm: "\<forall>d \<in> set names. name_ok (dname d)"
  proof
    fix d assume "d \<in> set names"
    with ok have "dir_ok d" by blast
    then show "name_ok (dname d)" by (cases d) simp
  qed
  from traverse_dir_inv [OF "1.prems"(1,2) nm dn t]
  have s1: "built s1" "grows s s1" "frame (below topdir) s s1"
    "\<forall>d \<in> set names. cur s1 (path_join topdir (dname d))" by simp_all
  from "1.IH" [OF t s1(1,4) ok w]
  have r: "built s'" "grows s1 s'" "frame (below topdir) s1 s'" by simp_all
  from r(1) grows_trans [OF s1(2) r(2)] frame_trans [OF s1(3) r(3)] show ?case by simp
next
  case (2 mc topdir s)
  then show ?case by (simp add: grows_refl frame_refl)
next
  case (3 mc topdir nm cf ef nc pr subs ds s)
  let ?d = "Dir nm cf ef nc pr subs"
  from "3.prems"(4) obtain s1 where w1: "walk mc (path_join topdir nm) subs s = Inr s1"
    and w2: "walk_each mc topdir ds s1 = Inr s'"
    by (auto split: sum.splits)
  from "3.prems"(3) have n: "name_ok nm" and so: "fs_ok subs" and oks: "\<forall>d \<in> set ds. dir_ok d"
    by (simp_all add: fs_ok_def)
  from "3.prems"(2) have c: "cur s (path_join topdir nm)" by simp
  from "3.IH"(1) [OF "3.prems"(1) c so w1]
  have s1: "built s1" "grows s s1" "frame (below (path_join topdir nm)) s s1" by simp_all
  have cs: "\<forall>d \<in> set ds. cur s1 (path_join topdir (dname d))"
  proof
    fix d assume d: "d \<in> set ds"
    with oks have "dir_ok d" by blast
    then have nd: "name_ok (dname d)" by (cases d) simp
    from "3.prems"(2) d have "cur s (path_join topdir (dname d))" by simp
    from cur_kept [OF this s1(2,3) sibling_not_below [OF n nd]]
    show "cur s1 (path_join topdir (dname d))" .
  qed
  from "3.IH"(2) [OF w1 s1(1) cs oks w2]
  have r: "built s'" "grows s1 s'" "frame (below topdir) s1 s'" by simp_all
  from r(1) grows_trans [OF s1(2) r(2)] frame_trans [OF s1(3) r(3) below_join [OF n]]
  show ?case by simp
qed

lemma reset_tree_built:
  assumes "strip (cwd s) = cwd s"
  shows "built (reset_tree mc s)" and "cur (reset_tree mc s) (cwd s)"
    and "cwd (reset_tree mc s) = cwd s"
  using assms
  unfolding reset_tree_def built_def cur_def tree_ok_def cid_ok_def new_object_def SimulationTask_def
  by (auto simp: Let_def)

lemma discover_built:
  assumes "fs_ok listing" "strip (cwd s) = cwd s" "discover mc listing s = Inr s'"
  shows "built s'"
proof -
  let ?s = "reset_tree mc s"
  note r = reset_tree_built [OF assms(2), of mc]
  from assms(3) have "walk mc (cwd s) listing ?s = Inr s'"
    by (simp add: discover_def Let_def r(3) del: walk.simps)
  from walk_inv [OF r(1,2) assms(1) this] show ?thesis by simp
qed

lemma built_tree_ok: "built s \<Longrightarrow> tree_ok s"
  by (simp add: built_def)

text \<open>A disk with two top-level simulations: \<open>a\<close> is running, \<open>b\<close> has stopped.\<close>

definition mc_demo :: module_common where
  "mc_demo = \<lparr>default_t = 0, default_t_max_extended = 0, default_niceness = 0\<rparr>"

definition simon_demo :: simon where
  "simon_demo =
     \<lparr>heap = (\<lambda>r. SimulationTask mc_demo 0 ''root'' ''/sim'' STATUS_NEW), next_ref = 0,
      module_dict = [''Nbody6''], sim_inst_dict = [], sim_inst_parent_dict = Map.empty,
      sim_tree = 0, cwd = ''/sim'', inst_id = 0, max_concurrent_jobs = 2\<rparr>"

definition disk_ab :: "fsdir list" where
  "disk_ab =
     [Dir ''b'' (Code_name ''Nbody6'') False 0 (STATUS_STOP, 10, 100) [],
      Dir ''a'' (Code_name ''Nbody6'') False 0 (STATUS_RUN, 20, 100) []]"

lemmas run_defs =
  build_simulation_tree_def discover_def reset_tree_def new_object_def
  traverse_simulation_dir_tree_def traverse_one_def instantiate_def attach_def upd_def
  sim_get_status_def mirror_and_nominate_def SimulationTask_def path_join_def strip_def
  is_space_def sync_pass_def sync_one_def Let_def

lemma demo_fs_ok: "fs_ok disk_ab"
  by (simp add: fs_ok_def disk_ab_def name_ok_def)

lemma demo_strip: "strip (cwd simon_demo) = cwd simon_demo"
  by (simp add: simon_demo_def strip_def is_space_def)

lemma demo_discover: "\<exists>s1. discover mc_demo disk_ab simon_demo = Inr s1"
  by (simp add: run_defs simon_demo_def mc_demo_def disk_ab_def)

lemma demo_build: "\<exists>s1. build_simulation_tree mc_demo disk_ab simon_demo = Inr s1"
  by (simp add: run_defs simon_demo_def mc_demo_def disk_ab_def)


text \<open>
  C10. The closure loop of \<^verbatim>\<open>build_simulation_tree\<close> never changes the status of the
  synthetic root.
\<close>

theorem closure_loop_keeps_root_status:
  assumes "fs_ok listing" and "strip (cwd s) = cwd s"
    and "build_simulation_tree mc listing s = Inr s'"
  shows "\<exists>s1. discover mc listing s = Inr s1 \<and>
           map_of (sim_inst_dict s') 0 = Some (sim_tree s') \<and> sim_tree s' = sim_tree s1 \<and>
           status (heap s' (sim_tree s')) = status (heap s1 (sim_tree s1))"
proof -
  from assms(3) obtain s1 n u where d: "discover mc listing s = Inr s1"
    and l: "sync_loop 0 True s1 = Inr (s', n, u)"
    by (auto simp: build_simulation_tree_def simp del: sync_loop.simps split: sum.splits)
  have b: "built s1" by (rule discover_built [OF assms(1,2) d])
  then have r: "map_of (sim_inst_dict s1) 0 = Some (sim_tree s1)"
    and ds: "distinct (map snd (sim_inst_dict s1))"
    by (simp_all add: built_def tree_ok_def)
  note f = only_status_fields [OF sync_loop_only_status [OF l]]
  from sync_loop_status_step [OF l] r ds
  have "status (heap s' (sim_tree s1)) = status (heap s1 (sim_tree s1))"
    unfolding status_step_def by blast
  with d r show ?thesis by (simp add: f)
qed

theorem closure_loop_keeps_root_status_witness:
  "fs_ok disk_ab \<and> strip (cwd simon_demo) = cwd simon_demo \<and>
   (\<exists>s' s1. build_simulation_tree mc_demo disk_ab simon_demo = Inr s' \<and>
       discover mc_demo disk_ab simon_demo = Inr s1 \<and>
       status (heap s1 (sim_tree s1)) = STATUS_STOP \<and>
       status (heap s' (sim_tree s')) = STATUS_STOP)"
proof -
  obtain s' where b: "build_simulation_tree mc_demo disk_ab simon_demo = Inr s'"
    using demo_build by blast
  from closure_loop_keeps_root_status [OF demo_fs_ok demo_strip b]
  obtain s1 where d: "discover mc_demo disk_ab simon_demo = Inr s1"
    and e: "status (heap s' (sim_tree s')) = status (heap s1 (sim_tree s1))" by blast
  from d have "status (heap s1 (sim_tree s1)) = STATUS_STOP"
    by (auto simp: run_defs simon_demo_def mc_demo_def disk_ab_def)
  with b d e demo_fs_ok demo_strip show ?thesis by auto
qed

text \<open>
  The \<open>n\<close>-th ancestor of the node with id \<open>k\<close>, following \<open>parent_id\<close>; the root
  (id 0) has no ancestor.
\<close>

fun ancestor_at :: "nat \<Rightarrow> int \<Rightarrow> simon \<Rightarrow> int option" where
  "ancestor_at 0 k s = Some k"
| "ancestor_at (Suc n) k s =
     (case map_of (sim_inst_dict s) k of
        None \<Rightarrow> None
      | Some r \<Rightarrow> if k = 0 then None else ancestor_at n (parent_id (heap s r)) s)"

text \<open>The status of the node with id \<open>k\<close>.\<close>

definition node_status :: "int \<Rightarrow> simon \<Rightarrow> status option" where
  "node_status k s = map_option (\<lambda>r. status (heap s r)) (map_of (sim_inst_dict s) k)"

text \<open>What an observation of the state reads after a build, or the error the build raises.\<close>

definition after_build ::
  "(simon \<Rightarrow> 'a) \<Rightarrow> module_common \<Rightarrow> fsdir list \<Rightarrow> simon \<Rightarrow> error + 'a" where
  "after_build f mc listing s =
     (case build_simulation_tree mc listing s of Inl e \<Rightarrow> Inl e | Inr s' \<Rightarrow> Inr (f s'))"

text \<open>
  A disk with one top-level simulation \<open>run_001\<close> that has stopped and holds a restart
  \<open>restart_01\<close> that is running.
\<close>

definition disk_chain :: "fsdir list" where
  "disk_chain =
     [Dir ''run_001'' (Code_name ''Nbody6'') False 0 (STATUS_STOP, 50, 100)
        [Dir ''restart_01'' (Code_name ''Nbody6'') False 0 (STATUS_RUN, 80, 100) []]]"

lemma ancestors_closed:
  "tree_ok s \<Longrightarrow> parent_closed s \<Longrightarrow> ancestor_at (Suc n) k s = Some a \<Longrightarrow> a \<noteq> 0
   \<Longrightarrow> map_of (sim_inst_dict s) k = Some r \<Longrightarrow> in_RD (status (heap s r))
   \<Longrightarrow> map_of (sim_inst_dict s) a = Some q \<Longrightarrow> in_RD (status (heap s q))"
proof (induction n arbitrary: k r)
  case 0
  from "0.prems"(3,5) have k0: "k \<noteq> 0" and a: "a = parent_id (heap s r)"
    by (auto split: if_splits)
  from "0.prems"(1,5) k0 have "0 \<le> parent_id (heap s r)" unfolding tree_ok_def by blast
  with a "0.prems"(4) have "0 < parent_id (heap s r)" by simp
  with "0.prems"(2,5,6,7) k0 a show ?case unfolding parent_closed_def by blast
next
  case (Suc n)
  let ?p = "parent_id (heap s r)"
  from Suc.prems(3,5) have k0: "k \<noteq> 0" and an: "ancestor_at (Suc n) ?p s = Some a"
    by (auto split: if_splits)
  from tree_ok_parent [OF Suc.prems(1,5) k0] obtain qp where
    qp: "map_of (sim_inst_dict s) ?p = Some qp" by blast
  from an qp have p0: "?p \<noteq> 0" by (auto split: if_splits)
  from Suc.prems(1,5) k0 have "0 \<le> ?p" unfolding tree_ok_def by blast
  with p0 have "0 < ?p" by simp
  with Suc.prems(2,5,6) k0 qp have "in_RD (status (heap s qp))"
    unfolding parent_closed_def by blast
  from Suc.IH [OF Suc.prems(1,2) an Suc.prems(4) qp this Suc.prems(7)] show ?case .
qed

lemma build_parent_closed:
  assumes "fs_ok listing" and "strip (cwd s) = cwd s"
    and "build_simulation_tree mc listing s = Inr s'"
    and lv: "\<forall>k r. map_of (sim_inst_dict s') k = Some r \<longrightarrow> level (heap s' r) \<le> 31"
  shows "tree_ok s' \<and> parent_closed s'"
proof -
  from assms(3) obtain s1 n u where d: "discover mc listing s = Inr s1"
    and l: "sync_loop 0 True s1 = Inr (s', n, u)"
    by (auto simp: build_simulation_tree_def simp del: sync_loop.simps split: sum.splits)
  have ok: "tree_ok s1" by (rule built_tree_ok [OF discover_built [OF assms(1,2) d]])
  note os = sync_loop_only_status [OF l]
  note f = only_status_fields [OF os]
  from lv have "\<forall>k r. map_of (sim_inst_dict s1) k = Some r \<longrightarrow> level (heap s1 r) \<le> 31"
    unfolding f .
  then have "closed_above s1 31 {}" by (rule closed_above_init)
  then have ca: "closed_above s1 (31 - int 0) {}" by simp
  have "parent_closed s'"
    by (rule sync_loop_closed [OF ok ca _ _ l]) simp_all
  with tree_ok_only_status [OF ok os] show ?thesis by simp
qed

text \<open>
  C2, as amended. After \<^verbatim>\<open>build_simulation_tree\<close> on a tree whose nodes have level at
  most 31, every strict ancestor other than the root of a RUNNING or DONE node is RUNNING
  or DONE.
\<close>

theorem propagation_closure_below_root:
  assumes "fs_ok listing" and "strip (cwd s) = cwd s"
    and "build_simulation_tree mc listing s = Inr s'"
    and "\<forall>k r. map_of (sim_inst_dict s') k = Some r \<longrightarrow> level (heap s' r) \<le> 31"
    and "node_status k s' = Some st" and "in_RD st"
    and "ancestor_at (Suc n) k s' = Some a" and "a \<noteq> 0"
  shows "\<exists>st'. node_status a s' = Some st' \<and> in_RD st'"
proof -
  from build_parent_closed [OF assms(1-4)] have ok: "tree_ok s'" and pc: "parent_closed s'"
    by simp_all
  from assms(5,6) obtain r where r: "map_of (sim_inst_dict s') k = Some r"
    "in_RD (status (heap s' r))" by (auto simp: node_status_def)
  have "\<exists>q. map_of (sim_inst_dict s') a = Some q"
    using ok r(1) assms(7)
  proof (induction n arbitrary: k r)
    case 0
    then have "k \<noteq> 0" "a = parent_id (heap s' r)" by (auto split: if_splits)
    with tree_ok_parent [OF "0.prems"(1,2)] show ?case by blast
  next
    case (Suc n)
    then have k0: "k \<noteq> 0" and an: "ancestor_at (Suc n) (parent_id (heap s' r)) s' = Some a"
      by (auto split: if_splits)
    from tree_ok_parent [OF Suc.prems(1,2) k0] obtain qp where
      "map_of (sim_inst_dict s') (parent_id (heap s' r)) = Some qp" by blast
    from Suc.IH [OF Suc.prems(1) this an] show ?case .
  qed
  then obtain q where q: "map_of (sim_inst_dict s') a = Some q" by blast
  from ancestors_closed [OF ok pc assms(7,8) r q] q show ?thesis
    by (simp add: node_status_def)
qed


lemma chain_fs_ok: "fs_ok disk_chain"
  by (simp add: fs_ok_def disk_chain_def name_ok_def)

lemma chain_build: "\<exists>s'. build_simulation_tree mc_demo disk_chain simon_demo = Inr s'"
  by (simp add: run_defs simon_demo_def mc_demo_def disk_chain_def)

theorem propagation_closure_below_root_witness:
  "fs_ok disk_chain \<and> strip (cwd simon_demo) = cwd simon_demo \<and>
   (\<exists>s'. build_simulation_tree mc_demo disk_chain simon_demo = Inr s' \<and>
      node_status 2 s' = Some STATUS_RUN \<and> in_RD STATUS_RUN \<and>
      ancestor_at (Suc 0) 2 s' = Some 1 \<and>
      (\<exists>st'. node_status 1 s' = Some st' \<and> in_RD st'))"
proof -
  obtain s' where b: "build_simulation_tree mc_demo disk_chain simon_demo = Inr s'"
    using chain_build by blast
  have lv: "\<forall>k r. map_of (sim_inst_dict s') k = Some r \<longrightarrow> level (heap s' r) \<le> 31"
    using b by (auto simp: run_defs simon_demo_def mc_demo_def disk_chain_def split: if_splits)
  have n: "node_status 2 s' = Some STATUS_RUN"
    using b by (auto simp: run_defs simon_demo_def mc_demo_def disk_chain_def node_status_def)
  have a: "ancestor_at (Suc 0) 2 s' = Some 1"
    using b by (auto simp: run_defs simon_demo_def mc_demo_def disk_chain_def)
  have rd: "in_RD STATUS_RUN" by (simp add: in_RD_def)
  from propagation_closure_below_root [OF chain_fs_ok demo_strip b lv n rd a]
  have "\<exists>st'. node_status 1 s' = Some st' \<and> in_RD st'" by simp
  with b n a rd chain_fs_ok demo_strip show ?thesis by blast
qed

text \<open>
  C2 as stated fails at the root: on the disk \<open>disk_ab\<close> the node \<open>a\<close> (id 1) is RUNNING
  after the build, its parent is the root (id 0), and the root is STOPPED.
\<close>

theorem propagation_closure_counterexample:
  "after_build (node_status 1) mc_demo disk_ab simon_demo = Inr (Some STATUS_RUN) \<and>
   after_build (ancestor_at (Suc 0) 1) mc_demo disk_ab simon_demo = Inr (Some 0) \<and>
   after_build (node_status 0) mc_demo disk_ab simon_demo = Inr (Some STATUS_STOP)"
  by (simp add: after_build_def node_status_def run_defs simon_demo_def mc_demo_def disk_ab_def)

text \<open>
  The status of the root after each iteration of the loop of
  \<^verbatim>\<open>traverse_simulation_dir_tree\<close>.
\<close>

fun root_status_trace :: "module_common \<Rightarrow> string \<Rightarrow> fsdir list \<Rightarrow> simon \<Rightarrow> status list" where
  "root_status_trace mc base_dir [] s = []"
| "root_status_trace mc base_dir (d # ds) s =
     (case traverse_one mc base_dir d s of
        Inl e \<Rightarrow> []
      | Inr s' \<Rightarrow> status (heap s' (sim_tree s')) # root_status_trace mc base_dir ds s')"

lemma sync_pass_status_step:
  assumes "sync_pass s = Inr (s', m)"
  shows "status_step s s'"
proof -
  from assms have "sync_each (map fst (sim_inst_dict s)) (s, False) = Inr (s', m)"
    by (simp add: sync_pass_def)
  then show ?thesis by (rule sync_each_status_step)
qed

lemma chain_discover: "\<exists>s1. discover mc_demo disk_chain simon_demo = Inr s1"
  by (simp add: run_defs simon_demo_def mc_demo_def disk_chain_def)

text \<open>
  C7, as amended. In the closure loop a status that is RUNNING or DONE stays RUNNING or
  DONE: through one iteration, one pass and the whole loop.
\<close>

theorem running_or_done_kept_by_closure_loop:
  assumes "in_RD (status (heap s x))"
  shows "(sync_one i (s, b) = Inr (s1, b1) \<longrightarrow> in_RD (status (heap s1 x))) \<and>
         (sync_pass s = Inr (s2, m) \<longrightarrow> in_RD (status (heap s2 x))) \<and>
         (sync_loop k u s = Inr (s3, n, u') \<longrightarrow> in_RD (status (heap s3 x)))"
proof (intro conjI impI)
  assume "sync_one i (s, b) = Inr (s1, b1)"
  from sync_one_status_step [OF this] assms show "in_RD (status (heap s1 x))"
    unfolding status_step_def by blast
next
  assume "sync_pass s = Inr (s2, m)"
  from sync_pass_status_step [OF this] assms show "in_RD (status (heap s2 x))"
    unfolding status_step_def by blast
next
  assume "sync_loop k u s = Inr (s3, n, u')"
  from sync_loop_status_step [OF this] assms show "in_RD (status (heap s3 x))"
    unfolding status_step_def by blast
qed

theorem running_or_done_kept_by_closure_loop_witness:
  "\<exists>s s1 b1 s2 m s3 n u'.
     discover mc_demo disk_chain simon_demo = Inr s \<and> in_RD (status (heap s 2)) \<and>
     sync_one 2 (s, False) = Inr (s1, b1) \<and> in_RD (status (heap s1 2)) \<and>
     sync_pass s = Inr (s2, m) \<and> in_RD (status (heap s2 2)) \<and>
     sync_loop 0 True s = Inr (s3, n, u') \<and> in_RD (status (heap s3 2))"
proof -
  obtain s where d: "discover mc_demo disk_chain simon_demo = Inr s"
    using chain_discover by blast
  have ok: "tree_ok s" by (rule built_tree_ok [OF discover_built [OF chain_fs_ok demo_strip d]])
  have rd: "in_RD (status (heap s 2))"
    using d by (auto simp: run_defs simon_demo_def mc_demo_def disk_chain_def in_RD_def)
  have "2 \<in> fst ` set (sim_inst_dict s)"
    using d by (auto simp: run_defs simon_demo_def mc_demo_def disk_chain_def)
  from sync_one_total [OF ok this] obtain s1 b1 where 1: "sync_one 2 (s, False) = Inr (s1, b1)"
    by blast
  from sync_pass_total [OF ok] obtain s2 m where 2: "sync_pass s = Inr (s2, m)" by blast
  from sync_loop_total [OF ok] obtain s3 n u' where 3: "sync_loop 0 True s = Inr (s3, n, u')"
    by blast
  from running_or_done_kept_by_closure_loop [OF rd, of 2 False s1 b1 s2 m 0 True s3 n u'] 1 2 3
  have "in_RD (status (heap s1 2))" "in_RD (status (heap s2 2))" "in_RD (status (heap s3 2))"
    by blast+
  with d rd 1 2 3 show ?thesis by blast
qed

text \<open>
  C7 as stated fails in the eager propagation: on the disk \<open>disk_ab\<close> the root is set to
  RUNNING when \<open>a\<close> is discovered and to STOPPED when \<open>b\<close> is discovered next.
\<close>

theorem eager_propagation_reverts_counterexample:
  "root_status_trace mc_demo (cwd simon_demo) (sort_key dname disk_ab)
     (reset_tree mc_demo simon_demo) = [STATUS_RUN, STATUS_STOP]"
  by (simp add: run_defs simon_demo_def mc_demo_def disk_ab_def)

text \<open>
  Below the top level every subtree carries one status: \<open>c\<close> gives a node the same value as
  its parent whenever that parent is not the root, and every RUNNING or DONE node whose
  parent is not the root has the status \<open>c\<close> gives it. The status of a top-level node is
  free.
\<close>

definition subtree_uniform :: "(int \<Rightarrow> status) \<Rightarrow> simon \<Rightarrow> bool" where
  "subtree_uniform c s =
     (\<forall>k r. map_of (sim_inst_dict s) k = Some r \<and> k \<noteq> 0 \<and> 0 < parent_id (heap s r)
        \<longrightarrow> c k = c (parent_id (heap s r)) \<and>
            (in_RD (status (heap s r)) \<longrightarrow> status (heap s r) = c k))"

lemma subtree_uniformD:
  assumes "subtree_uniform c s" "map_of (sim_inst_dict s) k = Some r" "k \<noteq> 0"
    "0 < parent_id (heap s r)"
  shows "c k = c (parent_id (heap s r))"
    and "in_RD (status (heap s r)) \<Longrightarrow> status (heap s r) = c k"
  using assms unfolding subtree_uniform_def by blast+

lemma subtree_uniform_sync_one:
  assumes ok: "tree_ok s" and un: "subtree_uniform c s"
    and step: "sync_one i (s, b) = Inr (s', b')"
  shows "subtree_uniform c s'"
proof -
  from sync_one_cases [OF step] show ?thesis
  proof (elim disjE exE conjE)
    assume "s' = s"
    with un show ?thesis by simp
  next
    fix ri qi
    assume w: "i \<noteq> 0" "map_of (sim_inst_dict s) i = Some ri" "in_RD (status (heap s ri))"
      "0 < parent_id (heap s ri)" "map_of (sim_inst_dict s) (parent_id (heap s ri)) = Some qi"
      "s' = upd qi (\<lambda>x. x\<lparr>status := status (heap s ri)\<rparr>) s"
    have os: "only_status s s'" using w(6) by (simp add: only_status_upd)
    note f = only_status_fields [OF os]
    have st: "\<And>x. status (heap s' x) = (if x = qi then status (heap s ri) else status (heap s x))"
      using w(6) by (simp add: upd_def)
    have dist: "distinct (map snd (sim_inst_dict s))" using ok unfolding tree_ok_def by simp
    have v: "status (heap s ri) = c (parent_id (heap s ri))"
      using subtree_uniformD [OF un w(2,1,4)] w(3) by simp
    show ?thesis
      unfolding subtree_uniform_def f
    proof (intro allI impI, elim conjE)
      fix k r
      assume h: "map_of (sim_inst_dict s) k = Some r" "k \<noteq> 0" "0 < parent_id (heap s r)"
      show "c k = c (parent_id (heap s r)) \<and>
            (in_RD (status (heap s' r)) \<longrightarrow> status (heap s' r) = c k)"
      proof (cases "r = qi")
        case True
        with h(1) w(5) have "k = parent_id (heap s ri)" using map_of_inj [OF dist] by blast
        with st v True subtree_uniformD(1) [OF un h] show ?thesis by simp
      next
        case False
        with st subtree_uniformD [OF un h] show ?thesis by simp
      qed
    qed
  qed
qed

lemma subtree_uniform_sync_each:
  "tree_ok s \<Longrightarrow> subtree_uniform c s \<Longrightarrow> sync_each ks (s, b) = Inr (s', b')
   \<Longrightarrow> subtree_uniform c s'"
proof (induction ks arbitrary: s b)
  case Nil
  then show ?case by simp
next
  case (Cons i ks)
  from Cons.prems(3) obtain s1 b1 where 1: "sync_one i (s, b) = Inr (s1, b1)"
    and 2: "sync_each ks (s1, b1) = Inr (s', b')"
    by (auto split: sum.splits)
  from Cons.IH [OF sync_one_tree_ok [OF Cons.prems(1) 1]
      subtree_uniform_sync_one [OF Cons.prems(1,2) 1] 2]
  show ?case .
qed

lemma subtree_uniform_sync_pass:
  assumes "tree_ok s" "subtree_uniform c s" "sync_pass s = Inr (s', m)"
  shows "subtree_uniform c s'"
proof -
  from assms(3) have "sync_each (map fst (sim_inst_dict s)) (s, False) = Inr (s', m)"
    by (simp add: sync_pass_def)
  from subtree_uniform_sync_each [OF assms(1,2) this] show ?thesis .
qed

text \<open>
  Agreement above a level: a RUNNING or DONE node deeper than \<open>m\<close>, or at level \<open>m\<close> and
  already visited in this pass, has the status of its parent when that parent is not the
  root.
\<close>

definition agree_above :: "simon \<Rightarrow> int \<Rightarrow> int set \<Rightarrow> bool" where
  "agree_above s m P =
     (\<forall>k r q. map_of (sim_inst_dict s) k = Some r \<and> k \<noteq> 0 \<and> 0 < parent_id (heap s r) \<and>
        map_of (sim_inst_dict s) (parent_id (heap s r)) = Some q \<and> in_RD (status (heap s r)) \<and>
        (m < level (heap s r) \<or> (k \<in> P \<and> level (heap s r) = m))
        \<longrightarrow> status (heap s q) = status (heap s r))"

lemma agree_aboveD:
  assumes "agree_above s m P" "map_of (sim_inst_dict s) k = Some r" "k \<noteq> 0"
    "0 < parent_id (heap s r)" "map_of (sim_inst_dict s) (parent_id (heap s r)) = Some q"
    "in_RD (status (heap s r))" "m < level (heap s r) \<or> (k \<in> P \<and> level (heap s r) = m)"
  shows "status (heap s q) = status (heap s r)"
  using assms unfolding agree_above_def by blast

lemma agree_above_step:
  assumes ok: "tree_ok s" and un: "subtree_uniform c s" and ca: "agree_above s m P"
    and step: "sync_one i (s, b) = Inr (s', b')"
  shows "agree_above s' m (insert i P)"
proof -
  from sync_one_cases [OF step] show ?thesis
  proof (elim disjE exE conjE)
    assume same: "s' = s" "b' = b"
      and nw: "agrees_at s i"
    show ?thesis
      unfolding agree_above_def same
    proof (intro allI impI, elim conjE)
      fix k r q
      assume h: "map_of (sim_inst_dict s) k = Some r" "k \<noteq> 0" "0 < parent_id (heap s r)"
        "map_of (sim_inst_dict s) (parent_id (heap s r)) = Some q" "in_RD (status (heap s r))"
        "m < level (heap s r) \<or> (k \<in> insert i P \<and> level (heap s r) = m)"
      show "status (heap s q) = status (heap s r)"
      proof (cases "k = i")
        case True
        with nw h show ?thesis unfolding agrees_at_def by blast
      next
        case False
        with h(6) have "m < level (heap s r) \<or> (k \<in> P \<and> level (heap s r) = m)" by simp
        from agree_aboveD [OF ca h(1-5) this] show ?thesis .
      qed
    qed
  next
    fix ri qi
    assume w: "i \<noteq> 0" "map_of (sim_inst_dict s) i = Some ri" "in_RD (status (heap s ri))"
      "0 < parent_id (heap s ri)" "map_of (sim_inst_dict s) (parent_id (heap s ri)) = Some qi"
      "status (heap s qi) \<noteq> status (heap s ri)"
      "s' = upd qi (\<lambda>x. x\<lparr>status := status (heap s ri)\<rparr>) s"
    have os: "only_status s s'" using w(7) by (simp add: only_status_upd)
    note f = only_status_fields [OF os]
    have st: "\<And>x. status (heap s' x) = (if x = qi then status (heap s ri) else status (heap s x))"
      using w(7) by (simp add: upd_def)
    have dist: "distinct (map snd (sim_inst_dict s))" using ok unfolding tree_ok_def by simp
    have "\<exists>q. map_of (sim_inst_dict s) (parent_id (heap s ri)) = Some q \<and>
            level (heap s ri) = level (heap s q) + 1"
      using ok w(1,2) unfolding tree_ok_def by blast
    with w(5) have lv: "level (heap s ri) = level (heap s qi) + 1" by simp
    have vi: "status (heap s ri) = c (parent_id (heap s ri))"
      using subtree_uniformD [OF un w(2,1,4)] w(3) by simp
    show ?thesis
      unfolding agree_above_def f
    proof (intro allI impI, elim conjE)
      fix k r q
      assume h: "map_of (sim_inst_dict s) k = Some r" "k \<noteq> 0" "0 < parent_id (heap s r)"
        "map_of (sim_inst_dict s) (parent_id (heap s r)) = Some q" "in_RD (status (heap s' r))"
        "m < level (heap s r) \<or> (k \<in> insert i P \<and> level (heap s r) = m)"
      have pk: "parent_id (heap s r) < k" using ok h(1,2) unfolding tree_ok_def by blast
      have rq: "r \<noteq> q"
      proof
        assume "r = q"
        with h(1,4) have "k = parent_id (heap s r)" using map_of_inj [OF dist] by blast
        with pk show False by simp
      qed
      show "status (heap s' q) = status (heap s' r)"
      proof (cases "q = qi")
        case True
        with rq have rn: "r \<noteq> qi" by simp
        with st h(5) have rd: "in_RD (status (heap s r))" by simp
        from h(4) w(5) True have "parent_id (heap s r) = parent_id (heap s ri)"
          using map_of_inj [OF dist] by blast
        with subtree_uniformD [OF un h(1-3)] rd vi
        have "status (heap s r) = status (heap s ri)" by simp
        with st True rn show ?thesis by simp
      next
        case qn: False
        have ki: "k \<noteq> i" using qn h(1,4) w(2,5) by auto
        with h(6) have h6: "m < level (heap s r) \<or> (k \<in> P \<and> level (heap s r) = m)" by simp
        have rn: "r \<noteq> qi"
        proof
          assume e: "r = qi"
          have "m < level (heap s ri)" using h6 lv e by auto
          then have "m < level (heap s ri) \<or> (i \<in> P \<and> level (heap s ri) = m)" by simp
          from agree_aboveD [OF ca w(2,1,4,5,3) this] w(6) show False by simp
        qed
        with st h(5) have rd: "in_RD (status (heap s r))" by simp
        from agree_aboveD [OF ca h(1-4) rd h6] show ?thesis using st qn rn by simp
      qed
    qed
  qed
qed

lemma agree_above_each:
  "tree_ok s \<Longrightarrow> subtree_uniform c s \<Longrightarrow> agree_above s m P \<Longrightarrow> sync_each ks (s, b) = Inr (s', b')
   \<Longrightarrow> agree_above s' m (P \<union> set ks)"
proof (induction ks arbitrary: s b P)
  case Nil
  then show ?case by simp
next
  case (Cons i ks)
  from Cons.prems(4) obtain s1 b1 where 1: "sync_one i (s, b) = Inr (s1, b1)"
    and 2: "sync_each ks (s1, b1) = Inr (s', b')"
    by (auto split: sum.splits)
  have "agree_above s' m (insert i P \<union> set ks)"
    by (rule Cons.IH [OF sync_one_tree_ok [OF Cons.prems(1) 1]
          subtree_uniform_sync_one [OF Cons.prems(1,2) 1]
          agree_above_step [OF Cons.prems(1,2,3) 1] 2])
  then show ?case by simp
qed

lemma agree_above_lower:
  assumes "agree_above s m P" "fst ` set (sim_inst_dict s) \<subseteq> P"
  shows "agree_above s (m - 1) {}"
  unfolding agree_above_def
proof (intro allI impI, elim conjE)
  fix k r q
  assume h: "map_of (sim_inst_dict s) k = Some r" "k \<noteq> 0" "0 < parent_id (heap s r)"
    "map_of (sim_inst_dict s) (parent_id (heap s r)) = Some q" "in_RD (status (heap s r))"
    "m - 1 < level (heap s r) \<or> (k \<in> {} \<and> level (heap s r) = m - 1)"
  from h(1) have "k \<in> fst ` set (sim_inst_dict s)" by (force dest: map_of_SomeD)
  with assms(2) have "k \<in> P" by blast
  with h(6) have "m < level (heap s r) \<or> (k \<in> P \<and> level (heap s r) = m)" by auto
  from agree_aboveD [OF assms(1) h(1-5) this] show "status (heap s q) = status (heap s r)" .
qed

lemma agree_above_pass:
  assumes "tree_ok s" "subtree_uniform c s" "agree_above s m {}" "sync_pass s = Inr (s', b')"
  shows "agree_above s' (m - 1) {}"
proof -
  from assms(4) have e: "sync_each (map fst (sim_inst_dict s)) (s, False) = Inr (s', b')"
    by (simp add: sync_pass_def)
  have d: "sim_inst_dict s' = sim_inst_dict s"
    by (rule only_status_fields(1) [OF sync_each_only_status [OF e]])
  from agree_above_each [OF assms(1,2,3) e]
  have "agree_above s' m (fst ` set (sim_inst_dict s'))" by (simp add: d)
  then show ?thesis by (rule agree_above_lower) simp
qed

lemma agree_above_low:
  assumes "tree_ok s" "agree_above s m {}" "m \<le> 1"
  shows "parent_agrees s"
  unfolding parent_agrees_def
proof (intro allI impI, elim conjE)
  fix k r q
  assume h: "map_of (sim_inst_dict s) k = Some r" "k \<noteq> 0" "0 < parent_id (heap s r)"
    "map_of (sim_inst_dict s) (parent_id (heap s r)) = Some q" "in_RD (status (heap s r))"
  from tree_ok_level2 [OF assms(1) h(1-3)] assms(3)
  have "m < level (heap s r) \<or> (k \<in> {} \<and> level (heap s r) = m)" by simp
  from agree_aboveD [OF assms(2) h(1-5) this] show "status (heap s q) = status (heap s r)" .
qed

lemma agree_above_init:
  assumes "\<forall>k r. map_of (sim_inst_dict s) k = Some r \<longrightarrow> level (heap s r) \<le> L"
  shows "agree_above s L {}"
  unfolding agree_above_def using assms by fastforce

lemma sync_one_agrees:
  assumes "tree_ok s" "agrees_at s i" "i \<in> fst ` set (sim_inst_dict s)"
  shows "sync_one i (s, b) = Inr (s, b)"
proof (cases "i = 0")
  case True
  then show ?thesis by (simp add: sync_one_def)
next
  case False
  from assms(3) obtain r where r: "map_of (sim_inst_dict s) i = Some r"
    by (metis domD dom_map_of_conv_image_fst)
  from tree_ok_parent [OF assms(1) r False] obtain q where
    q: "map_of (sim_inst_dict s) (parent_id (heap s r)) = Some q" by blast
  have "status (heap s r) = STATUS_RUN \<or> status (heap s r) = STATUS_DONE \<Longrightarrow>
        0 < parent_id (heap s r) \<Longrightarrow> status (heap s q) = status (heap s r)"
    using assms(2) False r q unfolding agrees_at_def in_RD_def by blast
  with False r q show ?thesis by (auto simp: sync_one_def)
qed

lemma sync_each_agrees:
  "tree_ok s \<Longrightarrow> \<forall>i \<in> set ks. agrees_at s i \<Longrightarrow> set ks \<subseteq> fst ` set (sim_inst_dict s)
   \<Longrightarrow> sync_each ks (s, b) = Inr (s, b)"
proof (induction ks)
  case Nil
  then show ?case by simp
next
  case (Cons i ks)
  from Cons.prems have "sync_one i (s, b) = Inr (s, b)"
    by (intro sync_one_agrees) simp_all
  moreover from Cons have "sync_each ks (s, b) = Inr (s, b)" by simp
  ultimately show ?case by simp
qed

lemma sync_pass_agrees:
  assumes "tree_ok s" "parent_agrees s"
  shows "sync_pass s = Inr (s, False)"
proof -
  have "\<forall>i \<in> set (map fst (sim_inst_dict s)). agrees_at s i"
    using assms(2) unfolding parent_agrees_def agrees_at_def by blast
  from sync_each_agrees [OF assms(1) this] show ?thesis by (simp add: sync_pass_def)
qed

lemma sync_loop_converges:
  "tree_ok s \<Longrightarrow> subtree_uniform c s \<Longrightarrow> agree_above s (L - int k) {} \<Longrightarrow> L \<le> 30
   \<Longrightarrow> (u \<longrightarrow> int k < L) \<Longrightarrow> sync_loop k u s = Inr (s', n, u') \<Longrightarrow> \<not> u'"
proof (induction k u s rule: sync_loop.induct)
  case (1 k u s)
  show ?case
  proof (cases "u \<and> k < 30")
    case False
    with "1.prems"(4,5) have "\<not> u" by auto
    with "1.prems"(6) show ?thesis by simp
  next
    case True
    with "1.prems"(6) obtain s1 m where p: "sync_pass s = Inr (s1, m)"
      and l: "sync_loop (k + 1) m s1 = Inr (s', n, u')"
      by (auto split: sum.splits)
    have ok1: "tree_ok s1" by (rule sync_pass_tree_ok [OF "1.prems"(1) p])
    have un1: "subtree_uniform c s1" by (rule subtree_uniform_sync_pass [OF "1.prems"(1,2) p])
    have "agree_above s1 (L - int k - 1) {}"
      by (rule agree_above_pass [OF "1.prems"(1,2,3) p])
    then have ca1: "agree_above s1 (L - int (k + 1)) {}" by (simp add: algebra_simps)
    have nx: "m \<longrightarrow> int (k + 1) < L"
    proof
      assume m
      show "int (k + 1) < L"
      proof (rule ccontr)
        assume "\<not> int (k + 1) < L"
        then have "L - int k \<le> 1" by simp
        from agree_above_low [OF "1.prems"(1,3) this] have "parent_agrees s" .
        from sync_pass_agrees [OF "1.prems"(1) this]
        have "sync_pass s = Inr (s, False)" .
        with p \<open>m\<close> show False by simp
      qed
    qed
    from "1.IH" [OF True p refl ok1 un1 ca1 "1.prems"(4) nx l] show ?thesis .
  qed
qed

lemma sync_loop_fixed:
  "sync_loop k u s = Inr (s', n, u') \<Longrightarrow> (\<not> u \<longrightarrow> parent_agrees s) \<Longrightarrow> \<not> u'
   \<Longrightarrow> parent_agrees s'"
proof (induction k u s rule: sync_loop.induct)
  case (1 k u s)
  show ?case
  proof (cases "u \<and> k < 30")
    case False
    with "1.prems" show ?thesis by auto
  next
    case True
    with "1.prems"(1) obtain s1 m where p: "sync_pass s = Inr (s1, m)"
      and l: "sync_loop (k + 1) m s1 = Inr (s', n, u')"
      by (auto split: sum.splits)
    have "\<not> m \<longrightarrow> parent_agrees s1"
    proof
      assume "\<not> m"
      with p have "sync_pass s = Inr (s1, False)" by simp
      from sync_pass_unmodified [OF this] show "parent_agrees s1" by simp
    qed
    from "1.IH" [OF True p refl l this "1.prems"(3)] show ?thesis .
  qed
qed


text \<open>The levels of the nodes, in the order of their ids.\<close>

definition levels :: "simon \<Rightarrow> int list" where
  "levels s = map (\<lambda>kr. level (heap s (snd kr))) (sim_inst_dict s)"

text \<open>
  What the closure loop of a build returns in \<^verbatim>\<open>max_iter\<close> and \<^verbatim>\<open>update_needed\<close>, and
  the levels of the tree it ran on.
\<close>

definition closure_loop_outcome ::
  "module_common \<Rightarrow> fsdir list \<Rightarrow> simon \<Rightarrow> error + (int list \<times> nat \<times> bool)" where
  "closure_loop_outcome mc listing s =
     (case discover mc listing s of
        Inl e \<Rightarrow> Inl e
      | Inr s1 \<Rightarrow>
          (case sync_loop 0 True s1 of
             Inl e \<Rightarrow> Inl e
           | Inr (s2, n, u) \<Rightarrow> Inr (levels s1, n, u)))"

text \<open>
  A disk with one top-level simulation that holds two restarts, one running and one done.
\<close>

definition disk_osc :: "fsdir list" where
  "disk_osc =
     [Dir ''run_001'' (Code_name ''Nbody6'') False 0 (STATUS_STOP, 50, 100)
        [Dir ''restart_01'' (Code_name ''Nbody6'') False 0 (STATUS_RUN, 80, 100) [],
         Dir ''restart_02'' (Code_name ''Nbody6'') False 0 (STATUS_DONE, 100, 100) []]]"

theorem closure_loop_no_fixed_point_counterexample:
  "closure_loop_outcome mc_demo disk_osc simon_demo = Inr ([0, 1, 2, 2], 30, True)"
  by (simp add: closure_loop_outcome_def levels_def run_defs simon_demo_def mc_demo_def disk_osc_def)


lemma sync_loop_stops_early:
  assumes "k < 30" "sync_pass t = Inr (t', False)"
  shows "sync_loop k True t = Inr (t', k + 1, False)"
proof -
  have "sync_loop (k + 1) False t' = Inr (t', k + 1, False)"
    by (subst sync_loop.simps) simp
  with assms show ?thesis by (subst sync_loop.simps) simp
qed

text \<open>
  A disk with two top-level simulations of one restart each: the first restart is running,
  the second is done.
\<close>

definition disk_two :: "fsdir list" where
  "disk_two =
     [Dir ''run_001'' (Code_name ''Nbody6'') False 0 (STATUS_STOP, 50, 100)
        [Dir ''restart_01'' (Code_name ''Nbody6'') False 0 (STATUS_RUN, 80, 100) []],
      Dir ''run_002'' (Code_name ''Nbody6'') False 0 (STATUS_STOP, 50, 100)
        [Dir ''restart_01'' (Code_name ''Nbody6'') False 0 (STATUS_DONE, 100, 100) []]]"

lemma two_fs_ok: "fs_ok disk_two"
  by (simp add: fs_ok_def disk_two_def name_ok_def)

lemma two_discover: "\<exists>s1. discover mc_demo disk_two simon_demo = Inr s1"
  by (simp add: run_defs simon_demo_def mc_demo_def disk_two_def)

text \<open>One status for each of the two simulations of \<open>disk_two\<close>.\<close>

definition two_colours :: "int \<Rightarrow> status" where
  "two_colours k = (if k = 1 \<or> k = 3 then STATUS_RUN else STATUS_DONE)"

text \<open>
  C8, as amended. The closure loop makes at most 30 passes; it leaves the loop before the
  30th pass only after a pass that changed nothing, and then the state is a fixed point of
  a pass; the first pass that changes nothing ends it; and on a tree of depth at most 30
  in which, below each top-level node, the RUNNING or DONE nodes all carry one status, it
  ends with a pass that changed nothing.
\<close>

theorem closure_loop_passes:
  assumes "fs_ok listing" and "strip (cwd s) = cwd s" and "discover mc listing s = Inr s1"
  shows "\<exists>s2 n u. sync_loop 0 True s1 = Inr (s2, n, u) \<and> n \<le> 30 \<and> (u \<longrightarrow> n = 30) \<and>
           (\<not> u \<longrightarrow> sync_pass s2 = Inr (s2, False)) \<and>
           (\<forall>k t t'. k < 30 \<and> sync_pass t = Inr (t', False)
              \<longrightarrow> sync_loop k True t = Inr (t', k + 1, False)) \<and>
           ((\<forall>l \<in> set (levels s1). l \<le> 30) \<and> subtree_uniform c s1 \<longrightarrow> \<not> u)"
proof -
  have ok: "tree_ok s1" by (rule built_tree_ok [OF discover_built [OF assms]])
  from sync_loop_total [OF ok] obtain s2 n u where l: "sync_loop 0 True s1 = Inr (s2, n, u)"
    by blast
  from sync_loop_bounds [OF l] have b: "n \<le> 30" "u \<longrightarrow> n = 30" by auto
  have ok2: "tree_ok s2" by (rule tree_ok_only_status [OF ok sync_loop_only_status [OF l]])
  have fx: "\<not> u \<longrightarrow> sync_pass s2 = Inr (s2, False)"
  proof
    assume "\<not> u"
    from sync_loop_fixed [OF l _ this] have "parent_agrees s2" by simp
    from sync_pass_agrees [OF ok2 this] show "sync_pass s2 = Inr (s2, False)" .
  qed
  have cv: "(\<forall>l \<in> set (levels s1). l \<le> 30) \<and> subtree_uniform c s1 \<longrightarrow> \<not> u"
  proof
    assume a: "(\<forall>l \<in> set (levels s1). l \<le> 30) \<and> subtree_uniform c s1"
    have "\<forall>k r. map_of (sim_inst_dict s1) k = Some r \<longrightarrow> level (heap s1 r) \<le> 30"
    proof (intro allI impI)
      fix k r assume "map_of (sim_inst_dict s1) k = Some r"
      then have "(k, r) \<in> set (sim_inst_dict s1)" by (rule map_of_SomeD)
      then have "level (heap s1 r) \<in> set (levels s1)" unfolding levels_def by force
      with a show "level (heap s1 r) \<le> 30" by blast
    qed
    then have "agree_above s1 30 {}" by (rule agree_above_init)
    then have ca: "agree_above s1 (30 - int 0) {}" by simp
    from a have un: "subtree_uniform c s1" by simp
    show "\<not> u" by (rule sync_loop_converges [OF ok un ca _ _ l]) simp_all
  qed
  from l b fx cv sync_loop_stops_early show ?thesis by blast
qed

theorem closure_loop_passes_witness:
  "fs_ok disk_two \<and> strip (cwd simon_demo) = cwd simon_demo \<and>
   (\<exists>s1 s2 n. discover mc_demo disk_two simon_demo = Inr s1 \<and>
      levels s1 = [0, 1, 1, 2, 2] \<and> subtree_uniform two_colours s1 \<and>
      map (\<lambda>k. node_status k s1) [1, 2, 3, 4] =
        [Some STATUS_RUN, Some STATUS_DONE, Some STATUS_RUN, Some STATUS_DONE] \<and>
      sync_loop 0 True s1 = Inr (s2, n, False) \<and> n \<le> 30 \<and>
      sync_pass s2 = Inr (s2, False) \<and> sync_loop 0 True s2 = Inr (s2, 0 + 1, False))"
proof -
  obtain s1 where d: "discover mc_demo disk_two simon_demo = Inr s1"
    using two_discover by blast
  have lv: "levels s1 = [0, 1, 1, 2, 2]"
    using d by (auto simp: levels_def run_defs simon_demo_def mc_demo_def disk_two_def)
  have ns: "map (\<lambda>k. node_status k s1) [1, 2, 3, 4] =
        [Some STATUS_RUN, Some STATUS_DONE, Some STATUS_RUN, Some STATUS_DONE]"
    using d by (auto simp: node_status_def run_defs simon_demo_def mc_demo_def disk_two_def)
  have un: "subtree_uniform two_colours s1"
    using d unfolding subtree_uniform_def two_colours_def
    by (auto simp: run_defs simon_demo_def mc_demo_def disk_two_def in_RD_def split: if_splits)
  from closure_loop_passes [OF two_fs_ok demo_strip d, of two_colours]
  obtain s2 n u where r: "sync_loop 0 True s1 = Inr (s2, n, u)" "n \<le> 30"
    "\<not> u \<longrightarrow> sync_pass s2 = Inr (s2, False)"
    "\<forall>k t t'. k < 30 \<and> sync_pass t = Inr (t', False)
              \<longrightarrow> sync_loop k True t = Inr (t', k + 1, False)"
    "(\<forall>l \<in> set (levels s1). l \<le> 30) \<and> subtree_uniform two_colours s1 \<longrightarrow> \<not> u"
    by blast
  from r(5) lv un have nu: "\<not> u" by simp
  with r(3) have p: "sync_pass s2 = Inr (s2, False)" by simp
  have "sync_loop 0 True s2 = Inr (s2, 0 + 1, False)"
    by (rule r(4) [rule_format, of 0 s2 s2]) (simp add: p)
  moreover from nu r(1) have "sync_loop 0 True s1 = Inr (s2, n, False)" by simp
  ultimately have "\<exists>s1 s2 n. discover mc_demo disk_two simon_demo = Inr s1 \<and>
      levels s1 = [0, 1, 1, 2, 2] \<and> subtree_uniform two_colours s1 \<and>
      map (\<lambda>k. node_status k s1) [1, 2, 3, 4] =
        [Some STATUS_RUN, Some STATUS_DONE, Some STATUS_RUN, Some STATUS_DONE] \<and>
      sync_loop 0 True s1 = Inr (s2, n, False) \<and> n \<le> 30 \<and>
      sync_pass s2 = Inr (s2, False) \<and> sync_loop 0 True s2 = Inr (s2, 0 + 1, False)"
    using d lv ns un r(2) p by (intro exI [of _ s1] exI [of _ s2] exI [of _ n]) simp
  with two_fs_ok demo_strip show ?thesis by simp
qed

text \<open>The node with id \<open>k\<close>.\<close>

definition node :: "int \<Rightarrow> simon \<Rightarrow> task option" where
  "node k s = map_option (heap s) (map_of (sim_inst_dict s) k)"

text \<open>
  A disk with two top-level directories, the first with the given configuration and the
  second a configured simulation.
\<close>

definition disk_with :: "conf \<Rightarrow> fsdir list" where
  "disk_with cf =
     [Dir ''a'' cf False 0 (STATUS_NEW, 0, 100) [],
      Dir ''b'' (Code_name ''Nbody6'') False 0 (STATUS_NEW, 0, 100) []]"

text \<open>
  C4. A directory without configuration file, without the option or with a code name that
  is not registered makes the build raise \<^verbatim>\<open>AttributeError\<close>, and one without the section
  \<^verbatim>\<open>NoSectionError\<close>: no node is kept and the directory \<open>b\<close> is never scanned.
\<close>

theorem unconfigured_directory_aborts_build:
  "build_simulation_tree mc_demo (disk_with NoFile) simon_demo = Inl AttributeError \<and>
   build_simulation_tree mc_demo (disk_with NoOption) simon_demo = Inl AttributeError \<and>
   build_simulation_tree mc_demo (disk_with (Code_name ''Gadget'')) simon_demo = Inl AttributeError \<and>
   build_simulation_tree mc_demo (disk_with NoSection) simon_demo = Inl NoSectionError"
  by (simp add: run_defs simon_demo_def mc_demo_def disk_with_def)

text \<open>
  C9. After a build on the disk \<open>disk_ab\<close> and a second build when both directories have
  been deleted, \<open>sim_inst_parent_dict\<close> still maps the path of \<open>a\<close> to the task object
  of the first build; \<open>sim_inst_dict\<close> and \<open>sim_tree\<close> hold the new root only.
\<close>

theorem parent_dict_keeps_old_objects:
  "\<exists>s1 s2 r. build_simulation_tree mc_demo disk_ab simon_demo = Inr s1 \<and>
      build_simulation_tree mc_demo [] s1 = Inr s2 \<and>
      sim_inst_parent_dict s2 ''/sim/a'' = Some r \<and> r < next_ref s1 \<and>
      name (heap s2 r) = ''a'' \<and>
      sim_inst_dict s2 = [(0, sim_tree s2)] \<and> next_ref s1 \<le> sim_tree s2"
  by (simp add: run_defs simon_demo_def mc_demo_def disk_ab_def)

text \<open>
  A disk with one top-level simulation \<open>run_001\<close> at progress 50 that holds two
  restarts without error marker: \<open>restart_01\<close> at progress 80 and \<open>restart_02\<close> at
  progress 60.
\<close>

definition disk_cand :: "fsdir list" where
  "disk_cand =
     [Dir ''run_001'' (Code_name ''Nbody6'') False 0 (STATUS_STOP, 50, 100)
        [Dir ''restart_01'' (Code_name ''Nbody6'') False 0 (STATUS_STOP, 80, 100) [],
         Dir ''restart_02'' (Code_name ''Nbody6'') False 0 (STATUS_STOP, 60, 90) []]]"

text \<open>
  C5 as stated fails: \<open>restart_02\<close> (id 3, progress 60) becomes the candidate of
  \<open>run_001\<close> (id 1) although the recorded candidate \<open>restart_01\<close> (id 2) has progress 80,
  so the candidate is not the most advanced child.
\<close>

theorem restart_candidate_counterexample:
  "after_build (map_option cid \<circ> node 1) mc_demo disk_cand simon_demo = Inr (Some 3) \<and>
   after_build (map_option t_max_extended \<circ> node 1) mc_demo disk_cand simon_demo = Inr (Some 90) \<and>
   after_build (map_option t_cur \<circ> node 2) mc_demo disk_cand simon_demo = Inr (Some 80) \<and>
   after_build (map_option t_cur \<circ> node 3) mc_demo disk_cand simon_demo = Inr (Some 60)"
  by (simp add: after_build_def node_def run_defs simon_demo_def mc_demo_def disk_cand_def)

text \<open>
  The test of lines 178 and 179 for a directory whose task has just been probed, against
  the progress of the parent.
\<close>

definition nominated :: "real \<Rightarrow> fsdir \<Rightarrow> bool" where
  "nominated t_parent d = (t_parent < fst (snd (dprobe d)) \<and> \<not> has_error d)"

text \<open>
  The candidate (\<open>cid\<close> and \<open>t_max_extended\<close>) of a parent with progress \<open>t_parent\<close> after
  the directories \<open>ds\<close> have been discovered in this order, the first of them getting the
  id \<open>n + 1\<close>: every directory that passes the test replaces the candidate.
\<close>

fun nominate_all :: "real \<Rightarrow> int \<times> real \<Rightarrow> int \<Rightarrow> fsdir list \<Rightarrow> int \<times> real" where
  "nominate_all t_parent cand n [] = cand"
| "nominate_all t_parent cand n (d # ds) =
     nominate_all t_parent
       (if nominated t_parent d then (n + 1, snd (snd (dprobe d))) else cand) (n + 1) ds"

lemma traverse_each_nominates:
  "built s \<Longrightarrow> sim_inst_parent_dict s base = Some p \<Longrightarrow> map_of (sim_inst_dict s) kp = Some p
   \<Longrightarrow> \<forall>d \<in> set ds. name_ok (dname d) \<Longrightarrow> traverse_each mc base ds s = Inr s'
   \<Longrightarrow> (cid (heap s' p), t_max_extended (heap s' p)) =
         nominate_all (t_cur (heap s p)) (cid (heap s p), t_max_extended (heap s p)) (inst_id s) ds"
proof (induction ds arbitrary: s)
  case Nil
  then show ?case by simp
next
  case (Cons d ds)
  from Cons.prems(5) obtain s1 where 1: "traverse_one mc base d s = Inr s1"
    and 2: "traverse_each mc base ds s1 = Inr s'"
    by (auto split: sum.splits)
  from Cons.prems(4) have nd: "name_ok (dname d)" and nds: "\<forall>d \<in> set ds. name_ok (dname d)"
    by simp_all
  have c: "cur s base" using Cons.prems(2,3) unfolding cur_def by blast
  from traverse_one_step [OF Cons.prems(1) c nd 1]
  have s1: "built s1" "grows s s1" "frame {path_join base (dname d)} s s1" by simp_all
  note ne = join_neq [OF nd, of base]
  note kp = built_keys [OF Cons.prems(1,3)]
  have pk: "map_of (sim_inst_dict s) (sid (heap s p)) = Some p" using Cons.prems(3) kp(4) by simp
  have fk: "inst_id s + 1 \<notin> fst ` set (sim_inst_dict s)" by (rule built_fresh_key [OF Cons.prems(1)])
  have fr: "p \<noteq> next_ref s" using kp(3) by simp
  note f = traverse_one_facts [OF 1 Cons.prems(2) ne pk fk fr]
  have pd1: "sim_inst_parent_dict s1 base = Some p"
    using s1(3) ne Cons.prems(2) unfolding frame_def by simp
  have pc1: "map_of (sim_inst_dict s1) kp = Some p"
    using s1(2) Cons.prems(3) unfolding grows_def by blast
  have e: "t_cur (heap s1 p) = t_cur (heap s p)" "inst_id s1 = inst_id s + 1"
    "(cid (heap s1 p), t_max_extended (heap s1 p)) =
       (if nominated (t_cur (heap s p)) d then (inst_id s + 1, snd (snd (dprobe d)))
        else (cid (heap s p), t_max_extended (heap s p)))"
    using fr by (simp_all add: f nominated_def)
  from Cons.IH [OF s1(1) pd1 pc1 nds 2] show ?case by (simp add: e)
qed

text \<open>
  C5, as amended. Over the entries of one directory a child replaces the parent's restart
  candidate exactly when its progress exceeds the parent's own progress and its directory
  holds no file \<^verbatim>\<open>ERROR\<close>; the parent's candidate after the scan of the directory is the
  last such child in the sorted order of the names.
\<close>

theorem restart_candidate_is_last_nominated:
  assumes "built s" and "sim_inst_parent_dict s base_dir = Some p"
    and "map_of (sim_inst_dict s) kp = Some p"
    and "\<forall>d \<in> set files. name_ok (dname d)"
    and "traverse_simulation_dir_tree mc base_dir files s = Inr s'"
  shows "(cid (heap s' p), t_max_extended (heap s' p)) =
           nominate_all (t_cur (heap s p)) (cid (heap s p), t_max_extended (heap s p))
             (inst_id s) (sort_key dname files)"
proof -
  have n: "\<forall>d \<in> set (sort_key dname files). name_ok (dname d)" using assms(4) by simp
  from assms(5) have t: "traverse_each mc base_dir (sort_key dname files) s = Inr s'"
    by (simp add: traverse_simulation_dir_tree_def)
  from traverse_each_nominates [OF assms(1-3) n t] show ?thesis .
qed

theorem restart_candidate_is_last_nominated_witness:
  "built (reset_tree mc_demo simon_demo) \<and>
   sim_inst_parent_dict (reset_tree mc_demo simon_demo) ''/sim'' = Some 0 \<and>
   map_of (sim_inst_dict (reset_tree mc_demo simon_demo)) 0 = Some 0 \<and>
   name_ok ''a'' \<and> name_ok ''b'' \<and>
   (\<exists>s'. traverse_simulation_dir_tree mc_demo ''/sim'' disk_ab (reset_tree mc_demo simon_demo)
            = Inr s' \<and>
      (cid (heap s' 0), t_max_extended (heap s' 0)) = (2, 100))"
proof -
  let ?s = "reset_tree mc_demo simon_demo"
  have b: "built ?s" by (rule reset_tree_built(1) [OF demo_strip])
  have pd: "sim_inst_parent_dict ?s ''/sim'' = Some 0"
    by (simp add: run_defs simon_demo_def mc_demo_def)
  have pc: "map_of (sim_inst_dict ?s) 0 = Some 0"
    by (simp add: run_defs simon_demo_def mc_demo_def)
  have nm: "name_ok ''a''" "name_ok ''b''" by (simp_all add: name_ok_def)
  then have n: "\<forall>d \<in> set disk_ab. name_ok (dname d)" by (simp add: disk_ab_def)
  obtain s' where t: "traverse_simulation_dir_tree mc_demo ''/sim'' disk_ab ?s = Inr s'"
    by (simp add: run_defs simon_demo_def mc_demo_def disk_ab_def)
  have v: "nominate_all (t_cur (heap ?s 0)) (cid (heap ?s 0), t_max_extended (heap ?s 0))
             (inst_id ?s) (sort_key dname disk_ab) = (2, 100)"
    by (simp add: run_defs simon_demo_def mc_demo_def disk_ab_def nominated_def)
  from restart_candidate_is_last_nominated [OF b pd pc n t] v
  have "(cid (heap s' 0), t_max_extended (heap s' 0)) = (2, 100)" by simp
  with b pd pc nm t show ?thesis by blast
qed

section \<open>The scheduler\<close>

text \<open>
  The actions the scheduler triggers on a task object: \<^verbatim>\<open>sim_backup_checkpoint\<close>,
  \<^verbatim>\<open>sim_kill\<close>, \<^verbatim>\<open>sim_restart\<close> and \<^verbatim>\<open>sim_start\<close>. They act on processes and on the
  disk; the model records them in a trace.
\<close>

datatype action = Backup ref | Kill ref | Restart ref | Start ref

text \<open>
  What the scheduler reads from outside during one pass: what the status probe of line 355
  and the one of line 369 read for a task, and the disk at the moment the tree is rebuilt
  after the kill of a task. Each task is probed once in either loop, so a function of the
  task gives every reading.
\<close>

record world =
  refresh :: "task \<Rightarrow> status \<times> real \<times> real"
  recheck :: "task \<Rightarrow> status \<times> real \<times> real"
  rescan :: "task \<Rightarrow> fsdir list"

text \<open>
  Lines 352 to 358: the body of the first loop, on the state, \<^verbatim>\<open>sim_niceness_vec\<close> and
  \<^verbatim>\<open>concurrent_jobs\<close>.
\<close>

definition survey_one ::
  "world \<Rightarrow> int \<Rightarrow> simon \<times> int list \<times> int \<Rightarrow> error + (simon \<times> int list \<times> int)" where
  "survey_one w i acc =
     (let s = fst acc; sim_niceness_vec = fst (snd acc); concurrent_jobs = snd (snd acc) in
      case map_of (sim_inst_dict s) i of
        None \<Rightarrow> Inl KeyError
      | Some r \<Rightarrow>
          (let vec = sim_niceness_vec @ [niceness (heap s r)];
               s' = sim_get_status (refresh w (heap s r)) r s
           in Inr (s', vec,
                   if status (heap s' r) = STATUS_RUN \<and> cid (heap s' r) = - 1
                   then concurrent_jobs + 1 else concurrent_jobs)))"

fun survey_each ::
  "world \<Rightarrow> int list \<Rightarrow> simon \<times> int list \<times> int \<Rightarrow> error + (simon \<times> int list \<times> int)" where
  "survey_each w [] acc = Inr acc"
| "survey_each w (i # ks) acc =
     (case survey_one w i acc of
        Inl e \<Rightarrow> Inl e
      | Inr acc' \<Rightarrow> survey_each w ks acc')"

definition survey :: "world \<Rightarrow> simon \<Rightarrow> error + (simon \<times> int list \<times> int)" where
  "survey w s = survey_each w (map fst (sim_inst_dict s)) (s, [], 0)"

text \<open>
  Lines 361 to 364: the loop over \<^verbatim>\<open>index_niceness_sorted\<close> that fills
  \<^verbatim>\<open>schedule_list\<close>.
\<close>

fun select_each :: "simon \<Rightarrow> nat list \<Rightarrow> ref list \<Rightarrow> error + ref list" where
  "select_each s [] schedule_list = Inr schedule_list"
| "select_each s (ind # inds) schedule_list =
     (case map_of (sim_inst_dict s) (int ind) of
        None \<Rightarrow> Inl KeyError
      | Some r \<Rightarrow>
          select_each s inds
            (if status (heap s r) \<noteq> STATUS_DONE \<and> sid (heap s r) > 0
             then schedule_list @ [r] else schedule_list))"

text \<open>
  Lines 382 to 384: the walk along \<open>cid\<close> to a task without restart candidate. The loop
  need not end, so the result is optional; a missing key raises \<^verbatim>\<open>KeyError\<close>.
\<close>

partial_function (option) restart_leaf :: "simon \<Rightarrow> ref \<Rightarrow> (error + ref) option" where
  "restart_leaf s current_inst =
     (if cid (heap s current_inst) \<noteq> - 1
      then (case map_of (sim_inst_dict s) (cid (heap s current_inst)) of
              None \<Rightarrow> Some (Inl KeyError)
            | Some c \<Rightarrow> restart_leaf s c)
      else Some (Inr current_inst))"

text \<open>
  The dispatch loop runs on the state, the counter \<^verbatim>\<open>concurrent_jobs\<close> and the trace of
  the actions triggered so far; it ends early when an exception is raised or when the walk
  of the restart chain does not end.
\<close>

datatype halt = Raised error | Hung

record run =
  state :: simon
  concurrent_jobs :: int
  trace :: "action list"
  halted :: "halt option"

text \<open>Lines 367 to 395: the body of the loop over \<^verbatim>\<open>schedule_list\<close>.\<close>

definition dispatch_one :: "module_common \<Rightarrow> world \<Rightarrow> ref \<Rightarrow> run \<Rightarrow> run" where
  "dispatch_one mc w sim rn =
     (let s = state rn in
      if sid (heap s sim) = 0 then rn
      else
        (let s1 = sim_get_status (recheck w (heap s sim)) sim s;
             st = status (heap s1 sim)
         in if st = STATUS_RUN
            then rn\<lparr>state := s1, trace := trace rn @ [Backup sim]\<rparr>
            else if st = STATUS_STALL
            then (case build_simulation_tree mc (rescan w (heap s1 sim)) s1 of
                    Inl e \<Rightarrow> rn\<lparr>state := s1, trace := trace rn @ [Kill sim],
                                halted := Some (Raised e)\<rparr>
                  | Inr s2 \<Rightarrow> rn\<lparr>state := s2, trace := trace rn @ [Kill sim]\<rparr>)
            else if st = STATUS_STOP
            then (if concurrent_jobs rn < max_concurrent_jobs s1 \<and> level (heap s1 sim) = 1
                  then (case restart_leaf s1 sim of
                          None \<Rightarrow> rn\<lparr>state := s1, halted := Some Hung\<rparr>
                        | Some (Inl e) \<Rightarrow> rn\<lparr>state := s1, halted := Some (Raised e)\<rparr>
                        | Some (Inr current_inst) \<Rightarrow>
                            rn\<lparr>state := s1, trace := trace rn @ [Restart current_inst],
                               concurrent_jobs := concurrent_jobs rn + 1\<rparr>)
                  else rn\<lparr>state := s1\<rparr>)
            else if st = STATUS_NEW
            then (if concurrent_jobs rn < max_concurrent_jobs s1
                  then rn\<lparr>state := s1, trace := trace rn @ [Start sim],
                          concurrent_jobs := concurrent_jobs rn + 1\<rparr>
                  else rn\<lparr>state := s1\<rparr>)
            else rn\<lparr>state := s1\<rparr>))"

fun dispatch_each :: "module_common \<Rightarrow> world \<Rightarrow> ref list \<Rightarrow> run \<Rightarrow> run" where
  "dispatch_each mc w [] rn = rn"
| "dispatch_each mc w (sim # sims) rn =
     (let rn' = dispatch_one mc w sim rn
      in if halted rn' \<noteq> None then rn' else dispatch_each mc w sims rn')"

text \<open>
  \<^verbatim>\<open>auto_scheduler\<close>. \<^verbatim>\<open>numpy.argsort\<close> is a parameter: the source calls it with its
  default sorting kind. An exception before the dispatch loop leaves no action.
\<close>

definition auto_scheduler ::
  "module_common \<Rightarrow> (int list \<Rightarrow> nat list) \<Rightarrow> world \<Rightarrow> fsdir list \<Rightarrow> simon \<Rightarrow> error + run" where
  "auto_scheduler mc argsort w listing s =
     (case build_simulation_tree mc listing s of
        Inl e \<Rightarrow> Inl e
      | Inr s1 \<Rightarrow>
          (case survey w s1 of
             Inl e \<Rightarrow> Inl e
           | Inr (s2, sim_niceness_vec, jobs) \<Rightarrow>
               (case select_each s2 (argsort sim_niceness_vec) [] of
                  Inl e \<Rightarrow> Inl e
                | Inr schedule_list \<Rightarrow>
                    Inr (dispatch_each mc w schedule_list
                           \<lparr>state = s2, concurrent_jobs = jobs, trace = [], halted = None\<rparr>))))"

text \<open>The attributes of the monitor that no step of a build changes.\<close>

definition same_config :: "simon \<Rightarrow> simon \<Rightarrow> bool" where
  "same_config s s' =
     (max_concurrent_jobs s' = max_concurrent_jobs s \<and> cwd s' = cwd s \<and>
      module_dict s' = module_dict s)"

lemma same_config_refl: "same_config s s"
  by (simp add: same_config_def)

lemma same_config_trans: "same_config a b \<Longrightarrow> same_config b c \<Longrightarrow> same_config a c"
  by (simp add: same_config_def)

lemma upd_config: "same_config s (upd r f s)"
  by (simp add: upd_def same_config_def)

lemma sim_get_status_config: "same_config s (sim_get_status obs r s)"
  by (simp add: sim_get_status_def upd_config)

lemma attach_config:
  "attach base filename fullpath i sim_inst s = Inr (r, s') \<Longrightarrow> same_config s s'"
  unfolding attach_def new_object_def upd_def same_config_def
  by (auto simp: Let_def split: option.splits)

lemma mirror_and_nominate_config:
  "mirror_and_nominate ef r s = Inr s' \<Longrightarrow> same_config s s'"
  unfolding mirror_and_nominate_def upd_def same_config_def
  by (auto simp: Let_def split: option.splits if_splits)

lemma traverse_one_config:
  assumes "traverse_one mc base d s = Inr s'"
  shows "same_config s s'"
proof -
  let ?s1 = "s\<lparr>inst_id := inst_id s + 1\<rparr>"
  from assms obtain sim_inst r s2 where
    a: "attach base (dname d) (path_join base (dname d)) (inst_id ?s1) sim_inst ?s1 = Inr (r, s2)"
    and m: "mirror_and_nominate (has_error d) r (sim_get_status (dprobe d) r s2) = Inr s'"
    unfolding traverse_one_def by (auto simp: Let_def split: sum.splits)
  have "same_config s ?s1" by (simp add: same_config_def)
  from same_config_trans [OF this attach_config [OF a]] have "same_config s s2" .
  from same_config_trans [OF this sim_get_status_config]
  have "same_config s (sim_get_status (dprobe d) r s2)" .
  from same_config_trans [OF this mirror_and_nominate_config [OF m]] show ?thesis .
qed

lemma traverse_each_config: "traverse_each mc base ds s = Inr s' \<Longrightarrow> same_config s s'"
proof (induction ds arbitrary: s)
  case Nil
  then show ?case by (simp add: same_config_refl)
next
  case (Cons d ds)
  then obtain s1 where 1: "traverse_one mc base d s = Inr s1"
    and 2: "traverse_each mc base ds s1 = Inr s'"
    by (auto split: sum.splits)
  from same_config_trans [OF traverse_one_config [OF 1] Cons.IH [OF 2]] show ?case .
qed

lemma walk_config:
  "walk mc topdir names s = Inr s' \<Longrightarrow> same_config s s'"
  and walk_each_config:
  "walk_each mc topdir ds s = Inr s' \<Longrightarrow> same_config s s'"
proof (induction mc topdir names s and mc topdir ds s arbitrary: s' and s' rule: walk_walk_each.induct)
  case (1 mc topdir names s)
  from "1.prems" obtain s1 where t: "traverse_simulation_dir_tree mc topdir names s = Inr s1"
    and w: "walk_each mc topdir names s1 = Inr s'"
    by (auto split: sum.splits)
  from t have "same_config s s1"
    unfolding traverse_simulation_dir_tree_def by (rule traverse_each_config)
  from same_config_trans [OF this "1.IH" [OF t w]] show ?case .
next
  case (2 mc topdir s)
  then show ?case by (simp add: same_config_refl)
next
  case (3 mc topdir nm cf ef nc pr subs ds s)
  from "3.prems" obtain s1 where w1: "walk mc (path_join topdir nm) subs s = Inr s1"
    and w2: "walk_each mc topdir ds s1 = Inr s'"
    by (auto split: sum.splits)
  from same_config_trans [OF "3.IH"(1) [OF w1] "3.IH"(2) [OF w1 w2]] show ?case .
qed

lemma only_status_config: "only_status s s' \<Longrightarrow> same_config s s'"
  unfolding only_status_def same_config_def by auto

lemma build_config:
  assumes "build_simulation_tree mc listing s = Inr s'"
  shows "same_config s s'"
proof -
  from assms obtain s1 n u where d: "discover mc listing s = Inr s1"
    and l: "sync_loop 0 True s1 = Inr (s', n, u)"
    by (auto simp: build_simulation_tree_def simp del: sync_loop.simps split: sum.splits)
  have r: "same_config s (reset_tree mc s)"
    by (simp add: reset_tree_def new_object_def same_config_def Let_def)
  from d have "walk mc (cwd (reset_tree mc s)) listing (reset_tree mc s) = Inr s1"
    by (simp add: discover_def Let_def del: walk.simps)
  from same_config_trans [OF r walk_config [OF this]] have "same_config s s1" .
  from same_config_trans [OF this only_status_config [OF sync_loop_only_status [OF l]]]
  show ?thesis .
qed

text \<open>The actions that take a slot: a start and a restart.\<close>

fun is_dispatch :: "action \<Rightarrow> bool" where
  "is_dispatch (Start r) = True"
| "is_dispatch (Restart r) = True"
| "is_dispatch (Backup r) = False"
| "is_dispatch (Kill r) = False"

definition dispatches :: "action list \<Rightarrow> int" where
  "dispatches tr = int (length (filter is_dispatch tr))"

text \<open>
  Every start and restart of the trace \<open>tr\<close> is triggered with the counter, \<open>jobs\<close> at the
  start of the trace and one more after each start or restart, strictly below \<open>mx\<close>.
\<close>

definition ceiling_kept :: "int \<Rightarrow> int \<Rightarrow> action list \<Rightarrow> bool" where
  "ceiling_kept mx jobs tr =
     (\<forall>j < length tr. is_dispatch (tr ! j) \<longrightarrow> jobs + dispatches (take j tr) < mx)"

lemma dispatches_append: "dispatches (a @ b) = dispatches a + dispatches b"
  by (simp add: dispatches_def)

lemma ceiling_kept_Nil: "ceiling_kept mx jobs []"
  by (simp add: ceiling_kept_def)

lemma ceiling_kept_single:
  "ceiling_kept mx jobs [a] = (is_dispatch a \<longrightarrow> jobs < mx)"
  by (simp add: ceiling_kept_def dispatches_def)

lemma ceiling_kept_append:
  assumes "ceiling_kept mx jobs a" "ceiling_kept mx (jobs + dispatches a) b"
  shows "ceiling_kept mx jobs (a @ b)"
  unfolding ceiling_kept_def
proof (intro allI impI)
  fix j assume j: "j < length (a @ b)" and d: "is_dispatch ((a @ b) ! j)"
  show "jobs + dispatches (take j (a @ b)) < mx"
  proof (cases "j < length a")
    case True
    with assms(1) d show ?thesis by (simp add: ceiling_kept_def nth_append)
  next
    case False
    then have "j - length a < length b" "is_dispatch (b ! (j - length a))"
      using j d by (simp_all add: nth_append)
    with assms(2) have "jobs + dispatches a + dispatches (take (j - length a) b) < mx"
      by (simp add: ceiling_kept_def)
    with False show ?thesis by (simp add: dispatches_append)
  qed
qed

lemma ceiling_kept_bound:
  "ceiling_kept mx jobs tr \<Longrightarrow> jobs + dispatches tr \<le> max jobs mx"
proof (induction tr rule: rev_induct)
  case Nil
  then show ?case by (simp add: dispatches_def)
next
  case (snoc a tr)
  have p: "ceiling_kept mx jobs tr"
    unfolding ceiling_kept_def
  proof (intro allI impI)
    fix j assume "j < length tr" "is_dispatch (tr ! j)"
    with snoc.prems show "jobs + dispatches (take j tr) < mx"
      unfolding ceiling_kept_def by (auto simp: nth_append dest!: spec [of _ j])
  qed
  show ?case
  proof (cases "is_dispatch a")
    case True
    with snoc.prems have "jobs + dispatches tr < mx"
      unfolding ceiling_kept_def by (auto dest!: spec [of _ "length tr"])
    with True show ?thesis by (simp add: dispatches_def)
  next
    case False
    with snoc.IH [OF p] show ?thesis by (simp add: dispatches_def)
  qed
qed

lemma dispatch_one_counter:
  assumes "dispatch_one mc w sim rn = rn'"
  shows "\<exists>new. trace rn' = trace rn @ new \<and>
           concurrent_jobs rn' = concurrent_jobs rn + dispatches new \<and>
           ceiling_kept (max_concurrent_jobs (state rn)) (concurrent_jobs rn) new \<and>
           same_config (state rn) (state rn')"
proof -
  let ?s1 = "sim_get_status (recheck w (heap (state rn) sim)) sim (state rn)"
  have c1: "same_config (state rn) ?s1" by (rule sim_get_status_config)
  then have mx: "max_concurrent_jobs ?s1 = max_concurrent_jobs (state rn)"
    by (simp add: same_config_def)
  have c2: "\<And>s2. build_simulation_tree mc (rescan w (heap ?s1 sim)) ?s1 = Inr s2
      \<Longrightarrow> same_config (state rn) s2"
    using same_config_trans [OF c1 build_config] by blast
  consider (skip) "trace rn' = trace rn" "concurrent_jobs rn' = concurrent_jobs rn"
      "state rn' = state rn \<or> state rn' = ?s1"
    | (quiet) a where "trace rn' = trace rn @ [a]" "\<not> is_dispatch a"
      "concurrent_jobs rn' = concurrent_jobs rn" "same_config (state rn) (state rn')"
    | (go) a where "trace rn' = trace rn @ [a]" "is_dispatch a"
      "concurrent_jobs rn' = concurrent_jobs rn + 1" "state rn' = ?s1"
      "concurrent_jobs rn < max_concurrent_jobs (state rn)"
    using assms c1 c2 mx unfolding dispatch_one_def
    by (auto simp: Let_def split: if_splits sum.splits option.splits)
  then show ?thesis
  proof cases
    case skip
    then have "same_config (state rn) (state rn')" using c1 same_config_refl by auto
    with skip show ?thesis
      by (intro exI [of _ "[]"]) (simp add: dispatches_def ceiling_kept_Nil)
  next
    case (quiet a)
    then show ?thesis
      by (intro exI [of _ "[a]"]) (simp add: dispatches_def ceiling_kept_single)
  next
    case (go a)
    then show ?thesis using c1
      by (intro exI [of _ "[a]"]) (simp add: dispatches_def ceiling_kept_single)
  qed
qed

lemma dispatch_each_counter:
  "dispatch_each mc w sims rn = rn' \<Longrightarrow>
   \<exists>new. trace rn' = trace rn @ new \<and>
     concurrent_jobs rn' = concurrent_jobs rn + dispatches new \<and>
     ceiling_kept (max_concurrent_jobs (state rn)) (concurrent_jobs rn) new \<and>
     same_config (state rn) (state rn')"
proof (induction sims arbitrary: rn)
  case Nil
  then show ?case
    by (intro exI [of _ "[]"]) (simp add: dispatches_def ceiling_kept_Nil same_config_refl)
next
  case (Cons sim sims)
  let ?r1 = "dispatch_one mc w sim rn"
  from dispatch_one_counter [OF refl, of mc w sim rn] obtain n1 where
    1: "trace ?r1 = trace rn @ n1" "concurrent_jobs ?r1 = concurrent_jobs rn + dispatches n1"
       "ceiling_kept (max_concurrent_jobs (state rn)) (concurrent_jobs rn) n1"
       "same_config (state rn) (state ?r1)" by blast
  show ?case
  proof (cases "halted ?r1 \<noteq> None")
    case True
    with Cons.prems have "rn' = ?r1" by (simp add: Let_def)
    with 1 show ?thesis by blast
  next
    case False
    with Cons.prems have "dispatch_each mc w sims ?r1 = rn'" by (simp add: Let_def)
    from Cons.IH [OF this] obtain n2 where
      2: "trace rn' = trace ?r1 @ n2" "concurrent_jobs rn' = concurrent_jobs ?r1 + dispatches n2"
         "ceiling_kept (max_concurrent_jobs (state ?r1)) (concurrent_jobs ?r1) n2"
         "same_config (state ?r1) (state rn')" by blast
    from 1(4) have mx: "max_concurrent_jobs (state ?r1) = max_concurrent_jobs (state rn)"
      by (simp add: same_config_def)
    have "ceiling_kept (max_concurrent_jobs (state rn)) (concurrent_jobs rn) (n1 @ n2)"
      using 1(3) 2(3) unfolding mx 1(2) by (rule ceiling_kept_append)
    with 1 2 same_config_trans [OF 1(4) 2(4)] show ?thesis
      by (intro exI [of _ "n1 @ n2"]) (simp add: dispatches_append)
  qed
qed


lemma survey_each_config:
  "survey_each w ks (s, vec, jobs) = Inr (s', vec', jobs') \<Longrightarrow> same_config s s'"
proof (induction ks arbitrary: s vec jobs)
  case Nil
  then show ?case by (simp add: same_config_refl)
next
  case (Cons i ks)
  from Cons.prems obtain s1 v1 j1 where 1: "survey_one w i (s, vec, jobs) = Inr (s1, v1, j1)"
    and 2: "survey_each w ks (s1, v1, j1) = Inr (s', vec', jobs')"
    by (auto split: sum.splits)
  from 1 have "same_config s s1"
    unfolding survey_one_def
    by (auto simp: Let_def sim_get_status_config split: option.splits)
  from same_config_trans [OF this Cons.IH [OF 2]] show ?case .
qed

text \<open>An implementation of \<^verbatim>\<open>numpy.argsort\<close> that keeps equal values in index order.\<close>

definition stable_argsort :: "int list \<Rightarrow> nat list" where
  "stable_argsort xs = sort_key (\<lambda>i. xs ! i) [0..<length xs]"

text \<open>A world in which every probe of a pass reads what the task holds already.\<close>

definition world_still :: world where
  "world_still =
     \<lparr>refresh = (\<lambda>tk. (status tk, t_cur tk, t_max_extended tk)),
      recheck = (\<lambda>tk. (status tk, t_cur tk, t_max_extended tk)),
      rescan = (\<lambda>tk. [])\<rparr>"

text \<open>A disk with three new top-level simulations.\<close>

definition disk_new :: "fsdir list" where
  "disk_new =
     [Dir ''a'' (Code_name ''Nbody6'') False 0 (STATUS_NEW, 0, 100) [],
      Dir ''b'' (Code_name ''Nbody6'') False 0 (STATUS_NEW, 0, 100) [],
      Dir ''c'' (Code_name ''Nbody6'') False 0 (STATUS_NEW, 0, 100) []]"

lemmas sched_defs =
  auto_scheduler_def survey_def survey_one_def dispatch_one_def stable_argsort_def world_still_def

text \<open>
  C1. In one pass of \<^verbatim>\<open>auto_scheduler\<close> every start and every restart is triggered with
  the counter \<^verbatim>\<open>concurrent_jobs\<close> strictly below \<^verbatim>\<open>max_concurrent_jobs\<close>, the counter
  grows by one at each of them and by nothing else, and it ends at most at the larger of
  its first value and \<^verbatim>\<open>max_concurrent_jobs\<close>.
\<close>

theorem concurrency_ceiling:
  assumes "auto_scheduler mc argsort w listing s = Inr rn"
  shows "\<exists>s1 s2 vec jobs. build_simulation_tree mc listing s = Inr s1 \<and>
           survey w s1 = Inr (s2, vec, jobs) \<and>
           ceiling_kept (max_concurrent_jobs s) jobs (trace rn) \<and>
           concurrent_jobs rn = jobs + dispatches (trace rn) \<and>
           concurrent_jobs rn \<le> max jobs (max_concurrent_jobs s)"
proof -
  from assms obtain s1 s2 vec jobs sl where b: "build_simulation_tree mc listing s = Inr s1"
    and sv: "survey w s1 = Inr (s2, vec, jobs)"
    and d: "dispatch_each mc w sl \<lparr>state = s2, concurrent_jobs = jobs, trace = [], halted = None\<rparr> = rn"
    unfolding auto_scheduler_def by (auto split: sum.splits)
  from sv have "same_config s1 s2" unfolding survey_def by (rule survey_each_config)
  from same_config_trans [OF build_config [OF b] this]
  have mx: "max_concurrent_jobs s2 = max_concurrent_jobs s" by (simp add: same_config_def)
  from dispatch_each_counter [OF d] mx
  have c: "ceiling_kept (max_concurrent_jobs s) jobs (trace rn)"
    and j: "concurrent_jobs rn = jobs + dispatches (trace rn)" by auto
  from ceiling_kept_bound [OF c] j b sv c show ?thesis by auto
qed

theorem concurrency_ceiling_witness:
  "\<exists>rn s1 s2 vec jobs.
     auto_scheduler mc_demo stable_argsort world_still disk_new simon_demo = Inr rn \<and>
     trace rn = [Start 1, Start 2] \<and> max_concurrent_jobs simon_demo = 2 \<and>
     build_simulation_tree mc_demo disk_new simon_demo = Inr s1 \<and>
     survey world_still s1 = Inr (s2, vec, jobs) \<and>
     ceiling_kept (max_concurrent_jobs simon_demo) jobs (trace rn) \<and>
     concurrent_jobs rn = jobs + dispatches (trace rn) \<and>
     concurrent_jobs rn \<le> max jobs (max_concurrent_jobs simon_demo)"
proof -
  have "\<exists>rn. auto_scheduler mc_demo stable_argsort world_still disk_new simon_demo = Inr rn \<and>
          trace rn = [Start 1, Start 2]"
    by (simp add: sched_defs run_defs simon_demo_def mc_demo_def disk_new_def)
  then obtain rn where
    a: "auto_scheduler mc_demo stable_argsort world_still disk_new simon_demo = Inr rn"
    and t: "trace rn = [Start 1, Start 2]" by blast
  have m: "max_concurrent_jobs simon_demo = 2" by (simp add: simon_demo_def)
  from concurrency_ceiling [OF a] a t m show ?thesis by blast
qed



lemma restart_leaf_total:
  "built s \<Longrightarrow> map_of (sim_inst_dict s) k = Some a \<Longrightarrow> \<exists>b. restart_leaf s a = Some (Inr b)"
proof (induction "nat (inst_id s - k)" arbitrary: k a rule: less_induct)
  case less
  show ?case
  proof (cases "cid (heap s a) = - 1")
    case True
    then show ?thesis by (subst restart_leaf.simps) simp
  next
    case False
    from less.prems have "cid_ok s" by (simp add: built_def)
    with less.prems(2) False obtain c where c: "k < cid (heap s a)"
      "map_of (sim_inst_dict s) (cid (heap s a)) = Some c"
      unfolding cid_ok_def by blast
    from built_keys(2) [OF less.prems(1) c(2)] c(1)
    have "nat (inst_id s - cid (heap s a)) < nat (inst_id s - k)" by simp
    from less.hyps [OF this less.prems(1) c(2)] obtain b where "restart_leaf s c = Some (Inr b)"
      by blast
    with False c(2) show ?thesis by (subst restart_leaf.simps) simp
  qed
qed

lemma restart_leaf_ends:
  assumes "built s"
  shows "restart_leaf s a \<noteq> None"
proof (cases "cid (heap s a) = - 1")
  case True
  then show ?thesis by (subst restart_leaf.simps) simp
next
  case False
  show ?thesis
  proof (cases "map_of (sim_inst_dict s) (cid (heap s a))")
    case None
    with False show ?thesis by (subst restart_leaf.simps) simp
  next
    case (Some c)
    from restart_leaf_total [OF assms Some] obtain b where "restart_leaf s c = Some (Inr b)"
      by blast
    with False Some show ?thesis by (subst restart_leaf.simps) simp
  qed
qed












end
